theory Spec2Isabelle
  imports Main "HOL-Library.Finite_Map"
begin

section \<open>organize\_media.py: strings, paths and the extension tables\<close>

text \<open>
  A Python \<open>str\<close> is a sequence of Unicode code points, so a string is a list of code
  points (natural numbers); \<open>ascii\<close> turns an Isabelle literal into such a string. File
  contents are byte lists. A \<open>pathlib.Path\<close> is the list of its components; \<open>p / name\<close>
  appends one component (file names hold no separator).
\<close>

type_synonym ustr = "nat list"
type_synonym bytes = "nat list"
type_synonym path = "ustr list"

definition ascii :: "string \<Rightarrow> ustr" where
  "ascii s = map of_char s"

text \<open>
  \<open>str.isspace\<close>, which is also the class \<open>\s\<close> of \<open>re\<close> on \<open>str\<close> patterns and the set
  that \<open>str.strip()\<close> removes: the 29 white-space code points of CPython.
\<close>

definition isspace :: "nat \<Rightarrow> bool" where
  "isspace c \<longleftrightarrow>
     (0x09 \<le> c \<and> c \<le> 0x0D) \<or> (0x1C \<le> c \<and> c \<le> 0x20) \<or> c = 0x85 \<or> c = 0xA0 \<or>
     c = 0x1680 \<or> (0x2000 \<le> c \<and> c \<le> 0x200A) \<or> c = 0x2028 \<or> c = 0x2029 \<or>
     c = 0x202F \<or> c = 0x205F \<or> c = 0x3000"

definition strip :: "ustr \<Rightarrow> ustr" where
  "strip s = rev (dropWhile isspace (rev (dropWhile isspace s)))"

text \<open>
  \<open>re.sub(r"C+", repl, s)\<close> for a character class \<open>C\<close>: scanning from the left, every
  maximal run of characters of the class is replaced by \<open>repl\<close>.
\<close>

function re_sub_plus :: "(nat \<Rightarrow> bool) \<Rightarrow> ustr \<Rightarrow> ustr \<Rightarrow> ustr" where
  "re_sub_plus C repl [] = []"
| "re_sub_plus C repl (c # cs) =
     (if C c then repl @ re_sub_plus C repl (dropWhile C cs)
      else c # re_sub_plus C repl cs)"
  by pat_completeness auto
termination
  by (relation "measure (\<lambda>(C, repl, s). length s)")
    (auto simp: length_dropWhile_le less_Suc_eq_le)

definition underscore :: nat where
  "underscore = 0x5F"

definition dot :: nat where
  "dot = 0x2E"

text \<open>
  \<^verbatim>\<open>name = re.sub(r"\s+", "_", name.strip()); name = re.sub(r"_+", "_", name)\<close>
\<close>

definition sanitized_name :: "ustr \<Rightarrow> ustr" where
  "sanitized_name name =
     re_sub_plus (\<lambda>c. c = underscore) [underscore]
       (re_sub_plus isspace [underscore] (strip name))"

text \<open>
  \<open>str.rfind\<close> of one character: the highest index holding it, or \<open>-1\<close>.
\<close>

fun rfind :: "ustr \<Rightarrow> nat \<Rightarrow> int" where
  "rfind [] c = - 1"
| "rfind (x # xs) c =
     (let r = rfind xs c in if 0 \<le> r then r + 1 else if x = c then 0 else - 1)"

text \<open>
  \<open>PurePath.name\<close>, \<open>PurePath.suffix\<close> and \<open>PurePath.stem\<close> as pathlib defines them up to
  Python 3.13: with \<open>i = name.rfind('.')\<close>, the suffix is \<open>name[i:]\<close> when
  \<open>0 < i < len(name) - 1\<close> and empty otherwise, and the stem is the rest.
\<close>

definition name_of :: "path \<Rightarrow> ustr" where
  "name_of p = (if p = [] then [] else last p)"

definition suffix_of :: "ustr \<Rightarrow> ustr" where
  "suffix_of name =
     (let i = rfind name dot
      in if 0 < i \<and> i < int (length name) - 1 then drop (nat i) name else [])"

definition stem_of :: "ustr \<Rightarrow> ustr" where
  "stem_of name =
     (let i = rfind name dot
      in if 0 < i \<and> i < int (length name) - 1 then take (nat i) name else name)"

definition suffix :: "path \<Rightarrow> ustr" where
  "suffix p = suffix_of (name_of p)"

definition stem :: "path \<Rightarrow> ustr" where
  "stem p = stem_of (name_of p)"

text \<open>
  \<open>str.lower()\<close>. The program compares the lowered suffix with the ASCII entries of its
  tables and reuses it only when it is one of them. A lowered string is pure ASCII exactly
  when each of its code points is ASCII or the Kelvin sign U+212A (whose lower case is
  \<open>k\<close>), so the mapping below is Python's on ASCII, on Latin-1 and on U+212A, and leaves
  every other code point alone, which changes no comparison with a table entry.
\<close>

definition lower_cp :: "nat \<Rightarrow> nat" where
  "lower_cp c =
     (if 0x41 \<le> c \<and> c \<le> 0x5A then c + 0x20
      else if 0xC0 \<le> c \<and> c \<le> 0xDE \<and> c \<noteq> 0xD7 then c + 0x20
      else if c = 0x212A then 0x6B
      else c)"

definition lower :: "ustr \<Rightarrow> ustr" where
  "lower s = map lower_cp s"

definition PHOTO_EXT :: "ustr list" where
  "PHOTO_EXT = map ascii
     [''.jpg'', ''.jpeg'', ''.png'', ''.gif'', ''.bmp'', ''.thm'', ''.tiff'', ''.heic'',
      ''.heif'', ''.webp'', ''.arw'', ''.nef'', ''.cr2'']"

definition VIDEO_EXT :: "ustr list" where
  "VIDEO_EXT = map ascii
     [''.mp4'', ''.mov'', ''.avi'', ''.mkv'', ''.wmv'', ''.flv'', ''.webm'', ''.mpeg'',
      ''.mpg'', ''.m4v'']"

definition MUSIC_EXT :: "ustr list" where
  "MUSIC_EXT = map ascii
     [''.mp3'', ''.aac'', ''.flac'', ''.ogg'', ''.wav'', ''.m4a'', ''.wma'']"

definition PROGRAM_EXT :: "ustr list" where
  "PROGRAM_EXT = map ascii
     [''.exe'', ''.msi'', ''.apk'', ''.deb'', ''.rpm'', ''.dmg'', ''.pkg'', ''.app'',
      ''.bat'', ''.sh'', ''.ps1'', ''.jar'']"

datatype category = Photo | Video | Music | Program | Other

text \<open>The directory names of \<open>CATEGORY_DIR\<close>, as code points (they are Cyrillic).\<close>

fun CATEGORY_DIR :: "category \<Rightarrow> ustr" where
  "CATEGORY_DIR Photo = [0x424, 0x43E, 0x442, 0x43E]"
| "CATEGORY_DIR Video = [0x412, 0x438, 0x434, 0x435, 0x43E]"
| "CATEGORY_DIR Music = [0x41C, 0x443, 0x437, 0x44B, 0x43A, 0x430]"
| "CATEGORY_DIR Program = [0x41F, 0x440, 0x43E, 0x433, 0x440, 0x430, 0x43C, 0x43C, 0x44B]"
| "CATEGORY_DIR Other = [0x41F, 0x440, 0x43E, 0x447, 0x435, 0x435]"

definition categorize :: "path \<Rightarrow> category" where
  "categorize p =
     (let ext = lower (suffix p)
      in if ext \<in> set PHOTO_EXT then Photo
         else if ext \<in> set VIDEO_EXT then Video
         else if ext \<in> set MUSIC_EXT then Music
         else if ext \<in> set PROGRAM_EXT then Program
         else Other)"

section \<open>Dates: \<open>strptime\<close>, \<open>strftime\<close> and the EXIF lookup\<close>

record datetime =
  year :: nat
  month :: nat
  day :: nat
  hour :: nat
  minute :: nat
  second :: nat

text \<open>\<open>str(n)\<close> of a non-negative integer: its decimal digits.\<close>

fun str_nat :: "nat \<Rightarrow> ustr" where
  "str_nat n = (if n < 10 then [0x30 + n] else str_nat (n div 10) @ [0x30 + n mod 10])"

declare str_nat.simps [simp del]

text \<open>A number printed in at least \<open>w\<close> digits, padded with zeros, as \<open>%m\<close> or \<open>%Y\<close> print.\<close>

definition zero_padded :: "nat \<Rightarrow> nat \<Rightarrow> ustr" where
  "zero_padded w n = replicate (w - length (str_nat n)) 0x30 @ str_nat n"

text \<open>
  \<^verbatim>\<open>dt.strftime("%Y%m%d_%H%M%S")\<close>. Python hands the format to the C library; the one
  of Linux prints \<open>%Y\<close> without padding, so a year below 1000 has fewer than four digits.
  The other fields always have two digits.
\<close>

definition strftime :: "datetime \<Rightarrow> ustr" where
  "strftime dt =
     str_nat (year dt) @ zero_padded 2 (month dt) @ zero_padded 2 (day dt) @
     [underscore] @
     zero_padded 2 (hour dt) @ zero_padded 2 (minute dt) @ zero_padded 2 (second dt)"

text \<open>
  \<^verbatim>\<open>datetime.strptime(s, "%Y:%m:%d %H:%M:%S")\<close>. The library turns the format into the
  regular expression
  \<^verbatim>\<open>(\d\d\d\d):(1[0-2]|0[1-9]|[1-9]):(3[0-1]|[1-2]\d|0[1-9]|[1-9]| [1-9])\s+\<close>
  \<^verbatim>\<open>(2[0-3]|[0-1]\d|\d):([0-5]\d|\d):(6[0-1]|[0-5]\d|\d)\<close>,
  matches it at the start of the string, refuses a match that leaves text unread, and then
  builds the \<open>datetime\<close>, which refuses a year 0, a day the month does not have and a
  second above 59. A matcher below returns the ways its piece can match, each with the
  text left, in the order in which a backtracking matcher tries them; the first complete
  match is the one \<open>re.match\<close> reports. The class \<open>\d\<close> of a \<open>str\<close> pattern holds every
  Unicode decimal digit (the 66 runs of ten digits of Unicode 14, each starting at its zero),
  and \<open>int\<close> reads them all; a class such as \<open>[0-5]\<close> holds ASCII digits only.
\<close>

definition in_range :: "nat \<Rightarrow> nat \<Rightarrow> nat \<Rightarrow> bool" where
  "in_range lo hi c \<longleftrightarrow> lo \<le> c \<and> c \<le> hi"

definition decimal_zeros :: "nat list" where
  "decimal_zeros =
     [0x30, 0x660, 0x6F0, 0x7C0, 0x966, 0x9E6, 0xA66, 0xAE6, 0xB66, 0xBE6, 0xC66, 0xCE6,
      0xD66, 0xDE6, 0xE50, 0xED0, 0xF20, 0x1040, 0x1090, 0x17E0, 0x1810, 0x1946, 0x19D0,
      0x1A80, 0x1A90, 0x1B50, 0x1BB0, 0x1C40, 0x1C50, 0xA620, 0xA8D0, 0xA900, 0xA9D0,
      0xA9F0, 0xAA50, 0xABF0, 0xFF10, 0x104A0, 0x10D30, 0x11066, 0x110F0, 0x11136,
      0x111D0, 0x112F0, 0x11450, 0x114D0, 0x11650, 0x116C0, 0x11730, 0x118E0, 0x11950,
      0x11C50, 0x11D50, 0x11DA0, 0x16A60, 0x16AC0, 0x16B50, 0x1D7CE, 0x1D7D8, 0x1D7E2,
      0x1D7EC, 0x1D7F6, 0x1E140, 0x1E2F0, 0x1E950, 0x1FBF0]"

definition is_digit :: "nat \<Rightarrow> bool" where
  "is_digit c = list_ex (\<lambda>z. in_range z (z + 9) c) decimal_zeros"

text \<open>The value \<open>int\<close> gives a decimal digit: its distance from the zero of its run.\<close>

definition digit_value :: "nat \<Rightarrow> nat" where
  "digit_value c =
     (case find (\<lambda>z. in_range z (z + 9) c) decimal_zeros of
        Some z \<Rightarrow> c - z
      | None \<Rightarrow> 0)"

definition one_char :: "(nat \<Rightarrow> bool) \<Rightarrow> ustr \<Rightarrow> (nat \<times> ustr) list" where
  "one_char C s = (case s of a # r \<Rightarrow> if C a then [(digit_value a, r)] else [] | [] \<Rightarrow> [])"

definition two_chars :: "(nat \<Rightarrow> bool) \<Rightarrow> (nat \<Rightarrow> bool) \<Rightarrow> ustr \<Rightarrow> (nat \<times> ustr) list" where
  "two_chars C D s =
     (case s of
        a # b # r \<Rightarrow> if C a \<and> D b then [(10 * digit_value a + digit_value b, r)] else []
      | _ \<Rightarrow> [])"

definition four_digits :: "ustr \<Rightarrow> (nat \<times> ustr) list" where
  "four_digits s =
     (case s of
        a # b # c # d # r \<Rightarrow>
          if is_digit a \<and> is_digit b \<and> is_digit c \<and> is_digit d
          then [(1000 * digit_value a + 100 * digit_value b + 10 * digit_value c +
                   digit_value d, r)]
          else []
      | _ \<Rightarrow> [])"

definition space_digit :: "ustr \<Rightarrow> (nat \<times> ustr) list" where
  "space_digit s =
     (case s of a # b # r \<Rightarrow> if a = 0x20 \<and> in_range 0x31 0x39 b then [(digit_value b, r)] else []
      | _ \<Rightarrow> [])"

definition literal :: "nat \<Rightarrow> ustr \<Rightarrow> ustr list" where
  "literal c s = (case s of a # r \<Rightarrow> if a = c then [r] else [] | [] \<Rightarrow> [])"

text \<open>\<open>\s+\<close> is greedy: the longest run first, then shorter ones, never an empty one.\<close>

definition spaces :: "ustr \<Rightarrow> ustr list" where
  "spaces s = map (\<lambda>k. drop k s) (rev [1 ..< Suc (length (takeWhile isspace s))])"

definition re_Y :: "ustr \<Rightarrow> (nat \<times> ustr) list" where
  "re_Y s = four_digits s"

definition re_m :: "ustr \<Rightarrow> (nat \<times> ustr) list" where
  "re_m s =
     two_chars (\<lambda>c. c = 0x31) (in_range 0x30 0x32) s @
     two_chars (\<lambda>c. c = 0x30) (in_range 0x31 0x39) s @
     one_char (in_range 0x31 0x39) s"

definition re_d :: "ustr \<Rightarrow> (nat \<times> ustr) list" where
  "re_d s =
     two_chars (\<lambda>c. c = 0x33) (in_range 0x30 0x31) s @
     two_chars (in_range 0x31 0x32) is_digit s @
     two_chars (\<lambda>c. c = 0x30) (in_range 0x31 0x39) s @
     one_char (in_range 0x31 0x39) s @
     space_digit s"

definition re_H :: "ustr \<Rightarrow> (nat \<times> ustr) list" where
  "re_H s =
     two_chars (\<lambda>c. c = 0x32) (in_range 0x30 0x33) s @
     two_chars (in_range 0x30 0x31) is_digit s @
     one_char is_digit s"

definition re_M :: "ustr \<Rightarrow> (nat \<times> ustr) list" where
  "re_M s = two_chars (in_range 0x30 0x35) is_digit s @ one_char is_digit s"

definition re_S :: "ustr \<Rightarrow> (nat \<times> ustr) list" where
  "re_S s =
     two_chars (\<lambda>c. c = 0x36) (in_range 0x30 0x31) s @
     two_chars (in_range 0x30 0x35) is_digit s @
     one_char is_digit s"

definition colon :: nat where
  "colon = 0x3A"

definition format_matches :: "ustr \<Rightarrow> (datetime \<times> ustr) list" where
  "format_matches s =
     [(\<lparr>year = Y, month = m, day = d, hour = H, minute = M, second = S\<rparr>, r10).
        (Y, r0) \<leftarrow> re_Y s, r1 \<leftarrow> literal colon r0,
        (m, r2) \<leftarrow> re_m r1, r3 \<leftarrow> literal colon r2,
        (d, r4) \<leftarrow> re_d r3, r5 \<leftarrow> spaces r4,
        (H, r6) \<leftarrow> re_H r5, r7 \<leftarrow> literal colon r6,
        (M, r8) \<leftarrow> re_M r7, r9 \<leftarrow> literal colon r8,
        (S, r10) \<leftarrow> re_S r9]"

definition is_leap :: "nat \<Rightarrow> bool" where
  "is_leap y \<longleftrightarrow> y mod 4 = 0 \<and> (y mod 100 \<noteq> 0 \<or> y mod 400 = 0)"

definition days_in_month :: "nat \<Rightarrow> nat \<Rightarrow> nat" where
  "days_in_month y m =
     (if m = 2 then (if is_leap y then 29 else 28)
      else if m \<in> {4, 6, 9, 11} then 30 else 31)"

definition valid_datetime :: "datetime \<Rightarrow> bool" where
  "valid_datetime dt \<longleftrightarrow>
     1 \<le> year dt \<and> year dt \<le> 9999 \<and> 1 \<le> month dt \<and> month dt \<le> 12 \<and>
     1 \<le> day dt \<and> day dt \<le> days_in_month (year dt) (month dt) \<and>
     hour dt \<le> 23 \<and> minute dt \<le> 59 \<and> second dt \<le> 59"

text \<open>\<open>None\<close> is the \<open>ValueError\<close> of \<open>strptime\<close>.\<close>

definition strptime :: "ustr \<Rightarrow> datetime option" where
  "strptime s =
     (case format_matches s of
        [] \<Rightarrow> None
      | (dt, rest) # _ \<Rightarrow> if rest = [] \<and> valid_datetime dt then Some dt else None)"

text \<open>
  What \<open>img._getexif()\<close> gives for the two tags the program reads. A value is a \<open>str\<close>,
  or a \<open>bytes\<close> object (given with the text that \<open>decode(errors="ignore")\<close> makes of it),
  or a value of another type, of which only its truth value matters. A file has \<open>None\<close>
  here when Pillow is missing, when the image cannot be opened or when it carries no EXIF
  block; a tag is \<open>None\<close> when it is absent.
\<close>

datatype exif_value = Str ustr | Bytes bytes ustr | OtherValue bool

record exif_tags =
  DateTimeOriginal :: "exif_value option"
  DateTime :: "exif_value option"

section \<open>The source tree, the destination and the run\<close>

text \<open>
  One entry per file that \<open>os.walk(source)\<close> yields, in the order of the walk: the
  directory and the file name, and what the platform answers for that file when the
  program asks. \<open>content\<close> is \<open>None\<close> when the file cannot be opened or read. \<open>mtime\<close> is
  \<open>datetime.fromtimestamp(src_path.stat().st_mtime)\<close>, and \<open>stat_raises\<close> says that this
  expression raises instead (an \<open>OSError\<close> of \<open>stat\<close>) if the program evaluates it for this
  file. \<open>probe_raises\<close> says that a \<open>target.exists()\<close> of \<open>unique_path\<close> raises an
  \<open>OSError\<close> if the program allocates a path for this file (for example because the name
  built for it is longer than the file system allows). \<open>copy\<close> is how the guarded
  \<open>shutil.copy2\<close> ends if the program calls it for this file: it succeeds, or it raises
  and leaves nothing or some bytes at the destination path. The destination is taken to lie
  outside the source tree, so the walk does not meet the files the run writes.
\<close>

datatype copy_result = CopyOk | CopyFails "bytes option"

record src_file =
  root :: path
  file_name :: ustr
  content :: "bytes option"
  exif :: "exif_tags option"
  mtime :: datetime
  stat_raises :: bool
  probe_raises :: bool
  copy :: copy_result

definition src_path :: "src_file \<Rightarrow> path" where
  "src_path f = root f @ [file_name f]"

text \<open>
  \<^verbatim>\<open>dt_bytes = exif_data.get("DateTimeOriginal") or exif_data.get("DateTime")\<close>:
  an absent or false first value gives way to the second. The test is made on the value as
  it is: an empty \<open>str\<close> and an empty \<open>bytes\<close> object are false, a \<open>bytes\<close> object that is
  not empty is true whatever it decodes to.
\<close>

definition truthy :: "exif_value option \<Rightarrow> bool" where
  "truthy v =
     (case v of
        None \<Rightarrow> False
      | Some (Str s) \<Rightarrow> s \<noteq> []
      | Some (Bytes raw decoded) \<Rightarrow> raw \<noteq> []
      | Some (OtherValue t) \<Rightarrow> t)"

text \<open>
  \<open>get_photo_datetime\<close>: a \<open>bytes\<close> value is decoded, then parsed; the \<open>ValueError\<close> of
  \<open>strptime\<close> gives \<open>None\<close>, and so does the \<open>TypeError\<close> it raises for a value that is not
  text (the outer handler catches it).
\<close>

definition get_photo_datetime :: "src_file \<Rightarrow> datetime option" where
  "get_photo_datetime f =
     (case exif f of
        None \<Rightarrow> None
      | Some exif_data \<Rightarrow>
          (let dt_bytes = (if truthy (DateTimeOriginal exif_data)
                           then DateTimeOriginal exif_data else DateTime exif_data)
           in if truthy dt_bytes
              then (case dt_bytes of
                      Some (Str s) \<Rightarrow> strptime s
                    | Some (Bytes raw decoded) \<Rightarrow> strptime decoded
                    | _ \<Rightarrow> None)
              else None))"

text \<open>
  The files that exist on disk, each with its content. The map is finite: a directory
  holds finitely many entries.
\<close>

type_synonym filesystem = "(path, bytes) fmap"

definition exists_path :: "filesystem \<Rightarrow> path \<Rightarrow> bool" where
  "exists_path fs p \<longleftrightarrow> p \<in> fmdom' fs"

text \<open>\<^verbatim>\<open>dest_dir / f"{stem}_{counter}{ext}"\<close>\<close>

definition numbered :: "path \<Rightarrow> ustr \<Rightarrow> ustr \<Rightarrow> nat \<Rightarrow> path" where
  "numbered dest_dir stm ext counter = dest_dir @ [stm @ [underscore] @ str_nat counter @ ext]"

text \<open>The \<open>while target.exists()\<close> loop of \<open>unique_path\<close>, on its two variables.\<close>

function unique_loop :: "filesystem \<Rightarrow> path \<Rightarrow> ustr \<Rightarrow> ustr \<Rightarrow> path \<Rightarrow> nat \<Rightarrow> path" where
  "unique_loop fs dest_dir stm ext target counter =
     (if exists_path fs target
      then unique_loop fs dest_dir stm ext (numbered dest_dir stm ext counter) (counter + 1)
      else target)"
  by pat_completeness auto

text \<open>The number that a string of decimal digits denotes.\<close>

definition decimal_value :: "ustr \<Rightarrow> nat" where
  "decimal_value s = foldl (\<lambda>v c. 10 * v + (c - 0x30)) 0 s"

text \<open>\<open>unique_path(dest_dir, filename)\<close>\<close>

definition unique_path :: "filesystem \<Rightarrow> path \<Rightarrow> ustr \<Rightarrow> path" where
  "unique_path fs dest_dir filename =
     (let target = dest_dir @ [filename];
          counter = 1;
          stm = stem target;
          ext = suffix target
      in unique_loop fs dest_dir stm ext target counter)"

text \<open>
  \<open>compute_sha256\<close> reads the file in chunks of \<open>CHUNK_SIZE\<close> bytes until a read
  returns nothing and feeds each chunk to the hash object. SHA-256 itself is a parameter
  of the model: \<open>sha256 b\<close> is the hexadecimal digest of the bytes \<open>b\<close>, and updating the
  hash object chunk by chunk digests the chunks' concatenation. An \<open>OSError\<close> of
  \<open>open\<close> or \<open>read\<close> leaves the function as an exception.
\<close>

definition CHUNK_SIZE :: nat where
  "CHUNK_SIZE = 2 ^ 20"

function chunks :: "nat \<Rightarrow> bytes \<Rightarrow> bytes list" where
  "chunks n b = (if n = 0 \<or> b = [] then [] else take n b # chunks n (drop n b))"
  by pat_completeness auto
termination
  by (relation "measure (\<lambda>(n, b). length b)") auto

declare chunks.simps [simp del]

datatype error = ReadError path | StatError path | ProbeError path | CopyError path

definition compute_sha256 :: "(bytes \<Rightarrow> ustr) \<Rightarrow> src_file \<Rightarrow> error + ustr" where
  "compute_sha256 sha256 f =
     (case content f of
        None \<Rightarrow> Inl (ReadError (src_path f))
      | Some b \<Rightarrow> Inr (sha256 (concat (chunks CHUNK_SIZE b))))"

text \<open>
  The name the loop body of \<open>organise\<close> builds (\<open>new_name\<close>): the date, the sanitized stem
  and the lowered suffix for a photo or a video, the file's own name otherwise. This is the
  name when line 191 does not raise; \<open>build_name\<close> below adds the raise.
\<close>

definition new_name :: "category \<Rightarrow> src_file \<Rightarrow> ustr" where
  "new_name category f =
     (if category \<in> {Photo, Video} then
        (let dt = (if category = Photo then get_photo_datetime f else None);
             dt = (case dt of None \<Rightarrow> mtime f | Some d \<Rightarrow> d);
             date_part = strftime dt;
             old_stem = sanitized_name (stem (src_path f))
         in date_part @ [underscore] @ old_stem @ lower (suffix (src_path f)))
      else if category = Music then name_of (src_path f)
      else name_of (src_path f))"

text \<open>
  Line 191 is evaluated for a photo without a usable EXIF date and for every video.
\<close>

definition needs_mtime :: "category \<Rightarrow> src_file \<Rightarrow> bool" where
  "needs_mtime category f \<longleftrightarrow>
     category \<in> {Photo, Video} \<and>
     (if category = Photo then get_photo_datetime f else None) = None"

text \<open>
  Lines 188 to 198 with the exception that can leave them: the \<open>OSError\<close> of
  \<open>src_path.stat()\<close>, which no handler catches.
\<close>

definition build_name :: "category \<Rightarrow> src_file \<Rightarrow> error + ustr" where
  "build_name category f =
     (if needs_mtime category f \<and> stat_raises f then Inl (StatError (src_path f))
      else Inr (new_name category f))"

text \<open>
  Line 200, the call of \<open>unique_path\<close>, with the exception that can leave it: the
  \<open>OSError\<close> of a \<open>target.exists()\<close>, which no handler catches either.
\<close>

definition allocate :: "src_file \<Rightarrow> filesystem \<Rightarrow> path \<Rightarrow> ustr \<Rightarrow> error + path" where
  "allocate f fs dest_subdir filename =
     (if probe_raises f then Inl (ProbeError (src_path f))
      else Inr (unique_path fs dest_subdir filename))"

text \<open>
  \<open>shutil.copy2(src_path, new_path)\<close>: the exception it raised, if any, and the disk
  afterwards.
\<close>

definition copy2 :: "src_file \<Rightarrow> path \<Rightarrow> filesystem \<Rightarrow> error option \<times> filesystem" where
  "copy2 f new_path fs =
     (case copy f of
        CopyOk \<Rightarrow>
          (case content f of
             Some b \<Rightarrow> (None, fmupd new_path b fs)
           | None \<Rightarrow> (Some (CopyError (src_path f)), fs))
      | CopyFails residue \<Rightarrow>
          (Some (CopyError (src_path f)),
           case residue of None \<Rightarrow> fs | Some r \<Rightarrow> fmupd new_path r fs))"

text \<open>
  The state of a run: \<open>seen_hashes\<close> (a \<open>defaultdict(set)\<close>, so every category has a
  set), the disk, and the messages logged so far.
\<close>

datatype event =
    Processing path category
  | SkipDuplicate path
  | Copied path path
  | CopyFailed path
  | Finished

record run_state =
  seen_hashes :: "category \<Rightarrow> ustr set"
  disk :: filesystem
  log :: "event list"

definition info :: "event \<Rightarrow> run_state \<Rightarrow> run_state" where
  "info e st = st\<lparr>log := log st @ [e]\<rparr>"

text \<open>
  The body of the loop over the files (lines 177 to 206), for one file. The first
  component of the result is the exception that left the body, if one did: hashing, line
  191 and line 200 stand outside every \<open>try\<close>; what the copy raises is caught and logged.
\<close>

definition process_file ::
  "(bytes \<Rightarrow> ustr) \<Rightarrow> path \<Rightarrow> src_file \<Rightarrow> run_state \<Rightarrow> error option \<times> run_state" where
  "process_file sha256 dest f st =
     (let category = categorize (src_path f);
          dest_subdir = dest @ [CATEGORY_DIR category];
          st = info (Processing (src_path f) category) st
      in case compute_sha256 sha256 f of
           Inl e \<Rightarrow> (Some e, st)
         | Inr file_hash \<Rightarrow>
             if file_hash \<in> seen_hashes st category
             then (None, info (SkipDuplicate (src_path f)) st)
             else
               (let st = st\<lparr>seen_hashes :=
                           (seen_hashes st)(category := insert file_hash (seen_hashes st category))\<rparr>
                in case build_name category f of
                     Inl e \<Rightarrow> (Some e, st)
                   | Inr name \<Rightarrow>
                       (case allocate f (disk st) dest_subdir name of
                          Inl e \<Rightarrow> (Some e, st)
                        | Inr new_path \<Rightarrow>
                            if \<not> exists_path (disk st) new_path
                            then (case copy2 f new_path (disk st) of
                                    (None, fs) \<Rightarrow>
                                      (None, info (Copied (src_path f) new_path)
                                               (st\<lparr>disk := fs\<rparr>))
                                  | (Some e, fs) \<Rightarrow>
                                      (None, info (CopyFailed (src_path f))
                                               (st\<lparr>disk := fs\<rparr>)))
                            else (None, st))))"

text \<open>The loop: an exception that leaves the body leaves the loop.\<close>

fun organise_files ::
  "(bytes \<Rightarrow> ustr) \<Rightarrow> path \<Rightarrow> src_file list \<Rightarrow> run_state \<Rightarrow> error option \<times> run_state" where
  "organise_files sha256 dest [] st = (None, st)"
| "organise_files sha256 dest (f # files) st =
     (case process_file sha256 dest f st of
        (Some e, st') \<Rightarrow> (Some e, st')
      | (None, st') \<Rightarrow> organise_files sha256 dest files st')"

text \<open>
  \<open>organise(source, dest)\<close>, where \<open>source\<close> is given by the files its walk yields and
  \<open>fs\<close> is the disk at the start. The destination root and its five category
  directories exist when the loop starts (lines 167 to 171 create them).
\<close>

definition organise ::
  "(bytes \<Rightarrow> ustr) \<Rightarrow> src_file list \<Rightarrow> path \<Rightarrow> filesystem \<Rightarrow> error option \<times> run_state" where
  "organise sha256 source dest fs =
     (case organise_files sha256 dest source
             \<lparr>seen_hashes = (\<lambda>category. {}), disk = fs, log = []\<rparr> of
        (Some e, st) \<Rightarrow> (Some e, st)
      | (None, st) \<Rightarrow> (None, info Finished st))"

text \<open>A string in which the character \<open>u\<close> never stands next to itself.\<close>

fun no_double :: "nat \<Rightarrow> ustr \<Rightarrow> bool" where
  "no_double u (x # y # r) = (\<not> (x = u \<and> y = u) \<and> no_double u (y # r))"
| "no_double u s = True"

text \<open>All the extensions the tables know.\<close>

definition known_extensions :: "ustr list" where
  "known_extensions = PHOTO_EXT @ VIDEO_EXT @ MUSIC_EXT @ PROGRAM_EXT"

text \<open>
  For the examples: a readable file \<open>name\<close> of the directory \<open>src\<close> with the content \<open>b\<close>,
  without EXIF data, last modified on 2020-01-15 at 09:00:00, for which nothing raises and
  whose copy succeeds.
\<close>

definition plain_file :: "string \<Rightarrow> bytes \<Rightarrow> src_file" where
  "plain_file name b =
     \<lparr>root = [ascii ''src''], file_name = ascii name, content = Some b, exif = None,
      mtime = \<lparr>year = 2020, month = 1, day = 15, hour = 9, minute = 0, second = 0\<rparr>,
      stat_raises = False, probe_raises = False, copy = CopyOk\<rparr>"

text \<open>
  The names \<open>unique_path\<close> is to probe in a directory, in order: the file name itself, then
  \<open>stem_1.ext\<close>, \<open>stem_2.ext\<close> and so on, with the stem and the extension of the file name.
\<close>

fun candidate_name :: "ustr \<Rightarrow> nat \<Rightarrow> ustr" where
  "candidate_name filename 0 = filename"
| "candidate_name filename (Suc k) =
     stem_of filename @ [underscore] @ str_nat (Suc k) @ suffix_of filename"

text \<open>For the examples: a disk on which \<open>dst/a.jpg\<close> and \<open>dst/a_1.jpg\<close> exist.\<close>

definition two_taken :: filesystem where
  "two_taken = fmupd [ascii ''dst'', ascii ''a.jpg''] [1]
     (fmupd [ascii ''dst'', ascii ''a_1.jpg''] [2] fmempty)"

text \<open>
  For the examples: a stand-in for SHA-256. The theorems hold for every digest function;
  a closed example needs one.
\<close>

definition toy_digest :: "bytes \<Rightarrow> ustr" where
  "toy_digest b = b"

text \<open>A file is copied in a run when the run logged its copy.\<close>

definition copied :: "run_state \<Rightarrow> src_file \<Rightarrow> bool" where
  "copied st f \<longleftrightarrow> (\<exists>new_path. Copied (src_path f) new_path \<in> set (log st))"

text \<open>
  What a run left under a destination root: the (category, file name, content) triples of
  the files in the five category directories.
\<close>

definition dest_tuples :: "path \<Rightarrow> filesystem \<Rightarrow> (category \<times> ustr \<times> bytes) set" where
  "dest_tuples dest fs = {(c, n, b). fmlookup fs (dest @ [CATEGORY_DIR c, n]) = Some b}"

text \<open>A destination root is fresh when its category directories are empty.\<close>

definition fresh :: "path \<Rightarrow> filesystem \<Rightarrow> bool" where
  "fresh dest fs \<longleftrightarrow> (\<forall>c n. \<not> exists_path fs (dest @ [CATEGORY_DIR c, n]))"

text \<open>
  For the examples: a walk of two files of the same category with the same content, where
  the copy of the first fails; and a walk whose first file cannot be read.
\<close>

definition failed_copy_walk :: "src_file list" where
  "failed_copy_walk =
     [(plain_file ''a.txt'' [104, 105])\<lparr>copy := CopyFails None\<rparr>, plain_file ''b.txt'' [104, 105]]"

definition unreadable_walk :: "src_file list" where
  "unreadable_walk =
     [(plain_file ''a.txt'' [104, 105])\<lparr>content := None\<rparr>, plain_file ''b.txt'' [3]]"

text \<open>The state in which \<open>organise\<close> enters its loop.\<close>

definition initial_state :: "filesystem \<Rightarrow> run_state" where
  "initial_state fs = \<lparr>seen_hashes = (\<lambda>category. {}), disk = fs, log = []\<rparr>"

text \<open>
  For the examples: two files of the same category with the same content, and two files
  with the same content in two categories.
\<close>

definition duplicate_walk :: "src_file list" where
  "duplicate_walk = [plain_file ''a.txt'' [104, 105], plain_file ''b.txt'' [104, 105]]"

definition two_category_walk :: "src_file list" where
  "two_category_walk = [plain_file ''a.txt'' [104, 105], plain_file ''b.mp3'' [104, 105]]"

text \<open>
  For the examples: three files with the same content, two of one category and then one of
  another.
\<close>

definition three_file_walk :: "src_file list" where
  "three_file_walk =
     [plain_file ''a.txt'' [104, 105], plain_file ''b.txt'' [104, 105],
      plain_file ''c.mp3'' [104, 105]]"

text \<open>
  Two runs, one into \<open>dest1\<close> and one into \<open>dest2\<close>, are in step when their fingerprint
  sets agree and the category directories of the two roots hold the same names with the
  same contents.
\<close>

definition same_view :: "path \<Rightarrow> path \<Rightarrow> run_state \<Rightarrow> run_state \<Rightarrow> bool" where
  "same_view dest1 dest2 st1 st2 \<longleftrightarrow>
     seen_hashes st1 = seen_hashes st2 \<and>
     (\<forall>c n. fmlookup (disk st1) (dest1 @ [CATEGORY_DIR c, n]) =
            fmlookup (disk st2) (dest2 @ [CATEGORY_DIR c, n]))"

text \<open>For the examples: a disk that holds a file outside every destination root.\<close>

definition other_disk :: filesystem where
  "other_disk = fmupd [ascii ''home'', ascii ''notes.txt''] [7] fmempty"

text \<open>
  Line 191 or line 200 raises for this file if the run gets there, and the exception that
  then leaves the loop.
\<close>

definition allocation_raises :: "src_file \<Rightarrow> bool" where
  "allocation_raises f \<longleftrightarrow>
     (needs_mtime (categorize (src_path f)) f \<and> stat_raises f) \<or> probe_raises f"

definition allocation_error :: "src_file \<Rightarrow> error" where
  "allocation_error f =
     (if needs_mtime (categorize (src_path f)) f \<and> stat_raises f then StatError (src_path f)
      else ProbeError (src_path f))"

text \<open>
  Nothing raises outside a handler for this file: it can be read, and neither line 191
  (where it is evaluated) nor line 200 raises for it.
\<close>

definition trouble_free :: "src_file \<Rightarrow> bool" where
  "trouble_free f \<longleftrightarrow> content f \<noteq> None \<and> \<not> allocation_raises f"


section \<open>Termination of the path allocator\<close>

text \<open>
  The loop of \<open>unique_path\<close> ends because the numbered candidates are pairwise different
  (decimal numerals are) and only finitely many paths exist.
\<close>

lemma decimal_value_str_nat: "decimal_value (str_nat n) = n"
proof (induction n rule: str_nat.induct)
  case (1 n)
  show ?case
  proof (cases "n < 10")
    case True
    then show ?thesis by (simp add: str_nat.simps [of n] decimal_value_def)
  next
    case False
    with "1" have "decimal_value (str_nat (n div 10)) = n div 10" by simp
    with False show ?thesis
      by (simp add: str_nat.simps [of n] decimal_value_def)
  qed
qed

lemma str_nat_inject: "str_nat m = str_nat n \<Longrightarrow> m = n"
  by (metis decimal_value_str_nat)

lemma numbered_inject: "numbered d s e i = numbered d s e j \<Longrightarrow> i = j"
  by (simp add: numbered_def str_nat_inject)

lemma finite_numbered_existing: "finite {j. exists_path fs (numbered d s e j)}"
proof -
  have "inj_on (numbered d s e) {j. exists_path fs (numbered d s e j)}"
    by (rule inj_onI) (rule numbered_inject)
  moreover have "numbered d s e ` {j. exists_path fs (numbered d s e j)} \<subseteq> fmdom' fs"
    by (auto simp: exists_path_def)
  ultimately show ?thesis
    by (meson finite_fmdom' finite_subset finite_imageD)
qed

termination unique_loop
proof (relation "measure (\<lambda>(fs, d, s, e, target, counter).
    2 * card {j. counter \<le> j \<and> exists_path fs (numbered d s e j)} +
    (if exists_path fs target then 1 else 0))")
  show "wf (measure (\<lambda>(fs, d, s, e, target, counter).
    2 * card {j. counter \<le> j \<and> exists_path fs (numbered d s e j)} +
    (if exists_path fs target then 1 else 0)))"
    by simp
next
  fix fs :: filesystem and dest_dir :: path and stm ext :: ustr and target :: path
    and counter :: nat
  assume ex: "exists_path fs target"
  let ?A = "\<lambda>c. {j. c \<le> j \<and> exists_path fs (numbered dest_dir stm ext j)}"
  have fin: "finite (?A counter)"
    by (rule finite_subset [OF _ finite_numbered_existing [of fs dest_dir stm ext]]) auto
  show "((fs, dest_dir, stm, ext, numbered dest_dir stm ext counter, counter + 1),
         (fs, dest_dir, stm, ext, target, counter)) \<in>
        measure (\<lambda>(fs, d, s, e, target, counter).
          2 * card {j. counter \<le> j \<and> exists_path fs (numbered d s e j)} +
          (if exists_path fs target then 1 else 0))"
  proof (cases "exists_path fs (numbered dest_dir stm ext counter)")
    case True
    have "?A counter = insert counter (?A (counter + 1))"
      using True by (auto simp: le_Suc_eq)
    moreover have "counter \<notin> ?A (counter + 1)" by simp
    moreover have "finite (?A (counter + 1))"
      by (rule finite_subset [OF _ fin]) auto
    ultimately have "card (?A counter) = Suc (card (?A (counter + 1)))"
      by simp
    with ex True show ?thesis by simp
  next
    case False
    have "?A counter = ?A (counter + 1)"
    proof -
      have "\<And>j. counter \<le> j \<and> exists_path fs (numbered dest_dir stm ext j) \<longleftrightarrow>
                 counter + 1 \<le> j \<and> exists_path fs (numbered dest_dir stm ext j)"
        using False by (metis Suc_eq_plus1 Suc_leI le_neq_implies_less le_add1 le_trans)
      then show ?thesis by simp
    qed
    with ex False show ?thesis by simp
  qed
qed

declare unique_loop.simps [simp del]

section \<open>The name sanitizer\<close>

lemma re_sub_plus_free:
  "(\<And>c. c \<in> set repl \<Longrightarrow> \<not> C c) \<Longrightarrow> c \<in> set (re_sub_plus C repl s) \<Longrightarrow> \<not> C c"
  by (induction C repl s rule: re_sub_plus.induct) (auto split: if_splits)

lemma re_sub_plus_id:
  "(\<And>c. c \<in> set s \<Longrightarrow> \<not> C c) \<Longrightarrow> re_sub_plus C repl s = s"
  by (induction C repl s rule: re_sub_plus.induct) auto

lemma re_sub_plus_subset: "set (re_sub_plus (\<lambda>c. c = u) [u] s) \<subseteq> set s"
proof (induction "\<lambda>c. c = u" "[u]" s rule: re_sub_plus.induct)
  case 1
  then show ?case by simp
next
  case (2 c cs)
  have "set (dropWhile (\<lambda>c. c = u) cs) \<subseteq> set cs"
    by (auto dest: set_dropWhileD)
  with "2" show ?case by (cases "c = u") auto
qed

lemma re_sub_plus_head:
  "s = [] \<or> \<not> C (hd s) \<Longrightarrow> re_sub_plus C repl s = [] \<or> \<not> C (hd (re_sub_plus C repl s))"
  by (cases s) auto

lemma dropWhile_head: "dropWhile C s = [] \<or> \<not> C (hd (dropWhile C s))"
  by (metis hd_dropWhile)

lemma no_double_Cons:
  "no_double u (x # s) \<longleftrightarrow> (s = [] \<or> \<not> (x = u \<and> hd s = u)) \<and> no_double u s"
  by (cases s) auto

lemma re_sub_plus_no_double: "no_double u (re_sub_plus (\<lambda>c. c = u) [u] s)"
proof (induction "\<lambda>c. c = u" "[u]" s rule: re_sub_plus.induct)
  case 1
  then show ?case by simp
next
  case (2 c cs)
  show ?case
  proof (cases "c = u")
    case True
    have "re_sub_plus (\<lambda>c. c = u) [u] (dropWhile (\<lambda>c. c = u) cs) = [] \<or>
          hd (re_sub_plus (\<lambda>c. c = u) [u] (dropWhile (\<lambda>c. c = u) cs)) \<noteq> u"
      using re_sub_plus_head [where C = "\<lambda>c. c = u" and repl = "[u]"
          and s = "dropWhile (\<lambda>c. c = u) cs"]
        dropWhile_head [of "\<lambda>c. c = u" cs] by simp
    with True "2" show ?thesis by (auto simp: no_double_Cons)
  next
    case False
    with "2" show ?thesis by (simp add: no_double_Cons)
  qed
qed

lemma re_sub_plus_collapsed: "no_double u s \<Longrightarrow> re_sub_plus (\<lambda>c. c = u) [u] s = s"
proof (induction "\<lambda>c. c = u" "[u]" s rule: re_sub_plus.induct)
  case 1
  then show ?case by simp
next
  case (2 c cs)
  show ?case
  proof (cases "c = u")
    case True
    with "2.prems" have "dropWhile (\<lambda>c. c = u) cs = cs" and "no_double u cs"
      by (cases cs; simp)+
    with True "2" show ?thesis by simp
  next
    case False
    with "2" show ?thesis by (simp add: no_double_Cons)
  qed
qed

lemma dropWhile_none: "(\<And>c. c \<in> set s \<Longrightarrow> \<not> C c) \<Longrightarrow> dropWhile C s = s"
  by (cases s) auto

lemma dropWhile_all: "(\<And>c. c \<in> set s \<Longrightarrow> C c) \<Longrightarrow> dropWhile C s = []"
  by simp

lemma strip_id:
  assumes "\<And>c. c \<in> set s \<Longrightarrow> \<not> isspace c"
  shows "strip s = s"
proof -
  have "dropWhile isspace s = s"
    using assms by (rule dropWhile_none)
  moreover have "dropWhile isspace (rev s) = rev s"
    using assms by (intro dropWhile_none) simp
  ultimately show ?thesis by (simp add: strip_def)
qed

lemma underscore_not_space: "\<not> isspace underscore"
  by (simp add: isspace_def underscore_def)

lemma sanitized_name_no_space:
  assumes "c \<in> set (sanitized_name x)"
  shows "\<not> isspace c"
proof -
  from assms have "c \<in> set (re_sub_plus isspace [underscore] (strip x))"
    unfolding sanitized_name_def using re_sub_plus_subset by blast
  then show ?thesis
    using re_sub_plus_free [of "[underscore]" isspace c "strip x"] underscore_not_space
    by simp
qed

lemma sanitized_name_fixed:
  assumes "\<And>c. c \<in> set s \<Longrightarrow> \<not> isspace c" and "no_double underscore s"
  shows "sanitized_name s = s"
  using assms by (simp add: sanitized_name_def strip_id re_sub_plus_id re_sub_plus_collapsed)

lemma sanitized_name_empty:
  assumes "\<And>c. c \<in> set x \<Longrightarrow> isspace c"
  shows "sanitized_name x = []"
proof -
  have "dropWhile isspace x = []"
    using assms by simp
  then have "strip x = []"
    unfolding strip_def by (simp only: rev.simps dropWhile.simps)
  then show ?thesis by (simp add: sanitized_name_def)
qed

text \<open>
  C7. Sanitation is idempotent: for every string \<open>x\<close>,
  \<open>sanitized_name (sanitized_name x) = sanitized_name x\<close>, where \<open>sanitized_name\<close> strips the
  white space at both ends, turns every run of white space into one underscore and then
  every run of underscores into one. The first pass leaves a string without white space and
  without two underscores in a row, and the three steps leave such a string as it is.
\<close>

theorem sanitized_name_idempotent: "sanitized_name (sanitized_name x) = sanitized_name x"
proof (rule sanitized_name_fixed)
  show "\<And>c. c \<in> set (sanitized_name x) \<Longrightarrow> \<not> isspace c"
    by (rule sanitized_name_no_space)
  show "no_double underscore (sanitized_name x)"
    by (simp add: sanitized_name_def re_sub_plus_no_double)
qed

section \<open>The classifier\<close>

lemmas path_parts =
  src_path_def stem_def suffix_def name_of_def stem_of_def suffix_of_def dot_def

lemma empty_not_known: "[] \<notin> set known_extensions"
  by (simp add: known_extensions_def PHOTO_EXT_def VIDEO_EXT_def MUSIC_EXT_def
      PROGRAM_EXT_def ascii_def)

text \<open>
  C8. \<open>categorize\<close> is a total function of the path that looks only at the lowered suffix
  of its last component: two paths whose lowered suffixes agree get the same category, an
  extension outside the four tables gives \<open>Other\<close>, and so does a name without an
  extension. Nothing in it reads the disk or can raise: it is a table lookup.
\<close>

theorem categorize_by_extension:
  "(lower (suffix p) = lower (suffix q) \<longrightarrow> categorize p = categorize q) \<and>
   (lower (suffix p) \<notin> set known_extensions \<longrightarrow> categorize p = Other) \<and>
   (suffix p = [] \<longrightarrow> categorize p = Other)"
proof (intro conjI impI)
  assume "lower (suffix p) = lower (suffix q)"
  then show "categorize p = categorize q"
    by (simp add: categorize_def)
next
  assume "lower (suffix p) \<notin> set known_extensions"
  then show "categorize p = Other"
    by (simp add: categorize_def known_extensions_def)
next
  assume "suffix p = []"
  then have "lower (suffix p) \<notin> set known_extensions"
    using empty_not_known by (simp add: lower_def)
  then show "categorize p = Other"
    by (simp add: categorize_def known_extensions_def)
qed

lemma suffix_README: "suffix [ascii ''README''] = []"
  by (simp add: suffix_def name_of_def suffix_of_def ascii_def dot_def)

lemma suffix_unknown: "lower (suffix [ascii ''notes.xyz'']) \<notin> set known_extensions"
  by (simp add: suffix_def name_of_def suffix_of_def ascii_def dot_def lower_def lower_cp_def
      known_extensions_def PHOTO_EXT_def VIDEO_EXT_def MUSIC_EXT_def PROGRAM_EXT_def)

lemma suffix_upper_case:
  "lower (suffix [ascii ''holiday'', ascii ''IMG_1.JPG'']) = lower (suffix [ascii ''x.jpg''])"
  by (simp add: suffix_def name_of_def suffix_of_def ascii_def dot_def lower_def lower_cp_def)

theorem categorize_by_extension_witness:
  "categorize [ascii ''holiday'', ascii ''IMG_1.JPG''] = categorize [ascii ''x.jpg''] \<and>
   categorize [ascii ''notes.xyz''] = Other \<and> categorize [ascii ''README''] = Other"
  using categorize_by_extension [of "[ascii ''holiday'', ascii ''IMG_1.JPG'']" "[ascii ''x.jpg'']"]
    categorize_by_extension [of "[ascii ''notes.xyz'']" "[]"]
    categorize_by_extension [of "[ascii ''README'']" "[]"]
    suffix_README suffix_unknown suffix_upper_case
  by simp

section \<open>Destination names\<close>

lemma media_extension_shape:
  "e \<in> set PHOTO_EXT \<union> set VIDEO_EXT \<Longrightarrow> \<exists>r. e = dot # r \<and> r \<noteq> []"
  by (auto simp: PHOTO_EXT_def VIDEO_EXT_def ascii_def dot_def)

lemma media_category_extension:
  "categorize p \<in> {Photo, Video} \<Longrightarrow> lower (suffix p) \<in> set PHOTO_EXT \<union> set VIDEO_EXT"
  by (auto simp: categorize_def Let_def split: if_splits)

lemma new_name_media:
  "category \<in> {Photo, Video} \<Longrightarrow>
   \<exists>dt. new_name category f =
     strftime dt @ [underscore] @ sanitized_name (stem (src_path f)) @ lower (suffix (src_path f))"
  by (auto simp: new_name_def Let_def)

text \<open>
  C10. For every string that consists of white space only (the empty string too),
  \<open>sanitized_name\<close> returns the empty string. So a photo or a video whose stem is all white
  space gets the name \<open><timestamp>_<ext>\<close>, where \<open><ext>\<close> is the lowered suffix, a dot and
  at least one more character: nothing stands between the underscore and the extension.
\<close>

theorem sanitized_name_whitespace:
  assumes "\<forall>c\<in>set x. isspace c"
  shows "sanitized_name x = [] \<and>
    (\<forall>f category.
       stem (src_path f) = x \<and> category = categorize (src_path f) \<and> category \<in> {Photo, Video} \<longrightarrow>
       (\<exists>dt r. new_name category f = strftime dt @ [underscore] @ lower (suffix (src_path f)) \<and>
          lower (suffix (src_path f)) = dot # r \<and> r \<noteq> []))"
proof (intro conjI allI impI)
  show e: "sanitized_name x = []"
    using assms by (intro sanitized_name_empty) simp
  fix f category
  assume a: "stem (src_path f) = x \<and> category = categorize (src_path f) \<and> category \<in> {Photo, Video}"
  then obtain dt where "new_name category f =
     strftime dt @ [underscore] @ sanitized_name (stem (src_path f)) @ lower (suffix (src_path f))"
    using new_name_media by blast
  with a e have "new_name category f = strftime dt @ [underscore] @ lower (suffix (src_path f))"
    by simp
  moreover obtain r where "lower (suffix (src_path f)) = dot # r \<and> r \<noteq> []"
    using a media_category_extension [of "src_path f"] media_extension_shape by blast
  ultimately show "\<exists>dt r. new_name category f = strftime dt @ [underscore] @ lower (suffix (src_path f)) \<and>
          lower (suffix (src_path f)) = dot # r \<and> r \<noteq> []"
    by blast
qed

lemma two_spaces: "\<forall>c\<in>set (ascii ''  ''). isspace c"
  by (simp add: ascii_def isspace_def)

lemma blank_stem: "stem (src_path (plain_file ''  .JPG'' [1])) = ascii ''  ''"
  by (simp add: path_parts plain_file_def ascii_def)

lemma blank_photo: "categorize (src_path (plain_file ''  .JPG'' [1])) = Photo"
  by (simp add: categorize_def path_parts plain_file_def ascii_def lower_def lower_cp_def PHOTO_EXT_def)

lemma blank_name: "new_name Photo (plain_file ''  .JPG'' [1]) = ascii ''20200115_090000_.jpg''"
proof -
  have "sanitized_name (ascii ''  '') = []"
    by (simp add: sanitized_name_def strip_def isspace_def ascii_def)
  moreover have "lower (suffix (src_path (plain_file ''  .JPG'' [1]))) = ascii ''.jpg''"
    by (simp add: path_parts plain_file_def ascii_def lower_def lower_cp_def)
  moreover have "ascii ''20200115_090000'' @ [underscore] @ ascii ''.jpg'' =
      ascii ''20200115_090000_.jpg''"
    by (simp add: ascii_def underscore_def)
  moreover have "get_photo_datetime (plain_file ''  .JPG'' [1]) = None"
    by (simp add: get_photo_datetime_def plain_file_def)
  moreover have "strftime (mtime (plain_file ''  .JPG'' [1])) = ascii ''20200115_090000''"
    by (simp add: plain_file_def strftime_def zero_padded_def str_nat.simps ascii_def
        underscore_def)
  ultimately show ?thesis
    using blank_stem by (simp add: new_name_def)
qed

theorem sanitized_name_whitespace_witness:
  "sanitized_name (ascii ''  '') = [] \<and>
   new_name Photo (plain_file ''  .JPG'' [1]) = ascii ''20200115_090000_.jpg''"
  using sanitized_name_whitespace [OF two_spaces] blank_stem blank_photo blank_name
  by simp

lemma is_digit_low: "c < 0x660 \<Longrightarrow> is_digit c = in_range 0x30 0x39 c"
  by (auto simp: is_digit_def decimal_zeros_def in_range_def)

lemma digit_value_low:
  "c < 0x660 \<Longrightarrow> digit_value c = (if in_range 0x30 0x39 c then c - 0x30 else 0)"
  by (auto simp: digit_value_def decimal_zeros_def in_range_def)

lemma strptime_example:
  "strptime (ascii ''2021:05:02 14:30:00'') =
   Some \<lparr>year = 2021, month = 5, day = 2, hour = 14, minute = 30, second = 0\<rparr>"
  by (simp add: strptime_def format_matches_def re_Y_def re_m_def re_d_def re_H_def re_M_def
      re_S_def four_digits_def two_chars_def one_char_def space_digit_def literal_def spaces_def
      in_range_def is_digit_low digit_value_low colon_def isspace_def valid_datetime_def
      days_in_month_def is_leap_def ascii_def)

lemma strftime_example:
  "strftime \<lparr>year = 2021, month = 5, day = 2, hour = 14, minute = 30, second = 0\<rparr> =
   ascii ''20210502_143000''"
  by (simp add: strftime_def zero_padded_def str_nat.simps ascii_def underscore_def)

lemma my_photo_stem: "stem_of (ascii ''my photo.jpg'') = ascii ''my photo''"
  by (simp add: path_parts ascii_def)

lemma my_photo_suffix: "suffix_of (ascii ''my photo.jpg'') = ascii ''.jpg''"
  by (simp add: path_parts ascii_def)

lemma my_photo_sanitized: "sanitized_name (ascii ''my photo'') = ascii ''my_photo''"
  by (simp add: sanitized_name_def strip_def isspace_def underscore_def ascii_def)

lemma jpg_lower: "lower (ascii ''.jpg'') = ascii ''.jpg''"
  by (simp add: lower_def lower_cp_def ascii_def)

lemma jpg_photo: "ascii ''.jpg'' \<in> set PHOTO_EXT"
  by (simp add: PHOTO_EXT_def)

lemmas my_photo_parts = my_photo_stem my_photo_suffix my_photo_sanitized jpg_lower jpg_photo

lemma my_photo_path:
  "src_path (f\<lparr>file_name := ascii ''my photo.jpg'', exif := e\<rparr>) = root f @ [ascii ''my photo.jpg'']"
  by (simp add: src_path_def)

lemma my_photo_category:
  "categorize (root f @ [ascii ''my photo.jpg'']) = Photo"
  by (simp add: categorize_def suffix_def name_of_def my_photo_parts)

lemma unique_path_free:
  "\<not> exists_path fs (dest_dir @ [filename]) \<Longrightarrow> unique_path fs dest_dir filename = dest_dir @ [filename]"
  by (simp add: unique_path_def unique_loop.simps)

lemma exif_time_nonempty: "ascii ''2021:05:02 14:30:00'' \<noteq> []"
  by (simp add: ascii_def)

text \<open>
  C5. Rename correctness: a file named \<open>my photo.jpg\<close> whose EXIF \<open>DateTimeOriginal\<close> is
  \<open>2021:05:02 14:30:00\<close> is a photo and the name built for it is exactly
  \<open>20210502_143000_my_photo.jpg\<close>, whatever its directory, content, modification time and
  \<open>DateTime\<close> tag are (and the same when the time stands in \<open>DateTime\<close> and there is no
  \<open>DateTimeOriginal\<close>); where no entry of that name exists yet in the photo directory,
  \<open>unique_path\<close> returns that name there.
\<close>

theorem rename_my_photo:
  "categorize (src_path (f\<lparr>file_name := ascii ''my photo.jpg'',
       exif := Some \<lparr>DateTimeOriginal = Some (Str (ascii ''2021:05:02 14:30:00'')), DateTime = t\<rparr>\<rparr>)) = Photo \<and>
   new_name Photo (f\<lparr>file_name := ascii ''my photo.jpg'',
       exif := Some \<lparr>DateTimeOriginal = Some (Str (ascii ''2021:05:02 14:30:00'')), DateTime = t\<rparr>\<rparr>) =
     ascii ''20210502_143000_my_photo.jpg'' \<and>
   new_name Photo (f\<lparr>file_name := ascii ''my photo.jpg'',
       exif := Some \<lparr>DateTimeOriginal = None, DateTime = Some (Str (ascii ''2021:05:02 14:30:00''))\<rparr>\<rparr>) =
     ascii ''20210502_143000_my_photo.jpg'' \<and>
   (\<not> exists_path fs (dest @ [CATEGORY_DIR Photo, ascii ''20210502_143000_my_photo.jpg'']) \<longrightarrow>
    unique_path fs (dest @ [CATEGORY_DIR Photo]) (ascii ''20210502_143000_my_photo.jpg'') =
      dest @ [CATEGORY_DIR Photo, ascii ''20210502_143000_my_photo.jpg''])"
proof -
  have name: "ascii ''20210502_143000'' @ [underscore] @ ascii ''my_photo'' @ ascii ''.jpg'' =
        ascii ''20210502_143000_my_photo.jpg''"
    by (simp add: ascii_def underscore_def)
  then have "new_name Photo (f\<lparr>file_name := ascii ''my photo.jpg'',
       exif := Some \<lparr>DateTimeOriginal = Some (Str (ascii ''2021:05:02 14:30:00'')), DateTime = t\<rparr>\<rparr>) =
     ascii ''20210502_143000_my_photo.jpg''"
    by (simp add: my_photo_path new_name_def get_photo_datetime_def truthy_def
        exif_time_nonempty strptime_example strftime_example stem_def suffix_def name_of_def
        my_photo_parts)
  moreover from name have "new_name Photo (f\<lparr>file_name := ascii ''my photo.jpg'',
       exif := Some \<lparr>DateTimeOriginal = None, DateTime = Some (Str (ascii ''2021:05:02 14:30:00''))\<rparr>\<rparr>) =
     ascii ''20210502_143000_my_photo.jpg''"
    by (simp add: my_photo_path new_name_def get_photo_datetime_def truthy_def
        exif_time_nonempty strptime_example strftime_example stem_def suffix_def name_of_def
        my_photo_parts)
  ultimately show ?thesis
    using unique_path_free [of fs "dest @ [CATEGORY_DIR Photo]" "ascii ''20210502_143000_my_photo.jpg''"]
    by (simp add: my_photo_path my_photo_category)
qed

theorem rename_my_photo_witness:
  "new_name Photo ((plain_file ''my photo.jpg'' [1])\<lparr>exif :=
       Some \<lparr>DateTimeOriginal = Some (Str (ascii ''2021:05:02 14:30:00'')), DateTime = None\<rparr>\<rparr>) =
     ascii ''20210502_143000_my_photo.jpg'' \<and>
   unique_path fmempty [ascii ''dst'', CATEGORY_DIR Photo] (ascii ''20210502_143000_my_photo.jpg'') =
     [ascii ''dst'', CATEGORY_DIR Photo, ascii ''20210502_143000_my_photo.jpg'']"
  using rename_my_photo [where f = "plain_file ''my photo.jpg'' [1]" and t = None
      and fs = fmempty and dest = "[ascii ''dst'']"]
  by (simp add: plain_file_def exists_path_def)

section \<open>The path allocator\<close>

lemma unique_loop_first:
  "\<exists>k. unique_loop fs d s e target c = (if k = 0 then target else numbered d s e (c + k - 1)) \<and>
       \<not> exists_path fs (unique_loop fs d s e target c) \<and>
       (0 < k \<longrightarrow> exists_path fs target) \<and>
       (\<forall>j. c \<le> j \<and> j < c + k - 1 \<longrightarrow> exists_path fs (numbered d s e j))"
proof (induction fs d s e target c rule: unique_loop.induct)
  case (1 fs d s e target c)
  show ?case
  proof (cases "exists_path fs target")
    case False
    then have "unique_loop fs d s e target c = target"
      by (simp add: unique_loop.simps)
    with False show ?thesis
      by (intro exI [of _ 0]) auto
  next
    case True
    let ?r = "unique_loop fs d s e (numbered d s e c) (c + 1)"
    have eq: "unique_loop fs d s e target c = ?r"
      using True by (subst unique_loop.simps) simp
    from "1" [OF True] obtain k where k:
      "?r = (if k = 0 then numbered d s e c else numbered d s e (c + 1 + k - 1))"
      "\<not> exists_path fs ?r"
      "0 < k \<longrightarrow> exists_path fs (numbered d s e c)"
      "\<forall>j. c + 1 \<le> j \<and> j < c + 1 + k - 1 \<longrightarrow> exists_path fs (numbered d s e j)"
      by blast
    have "\<forall>j. c \<le> j \<and> j < c + Suc k - 1 \<longrightarrow> exists_path fs (numbered d s e j)"
    proof (intro allI impI)
      fix j
      assume j: "c \<le> j \<and> j < c + Suc k - 1"
      show "exists_path fs (numbered d s e j)"
      proof (cases "j = c")
        case True
        with j k(3) show ?thesis by simp
      next
        case False
        with j k(4) show ?thesis by simp
      qed
    qed
    moreover have "?r = numbered d s e (c + Suc k - 1)"
      using k(1) by (cases "k = 0") simp_all
    ultimately show ?thesis
      using True k(2) eq by (intro exI [of _ "Suc k"]) simp
  qed
qed

lemma name_of_snoc: "name_of (d @ [n]) = n"
  by (simp add: name_of_def)

lemma unique_path_first:
  "\<exists>k. unique_path fs dest_dir filename = dest_dir @ [candidate_name filename k] \<and>
       \<not> exists_path fs (dest_dir @ [candidate_name filename k]) \<and>
       (\<forall>j<k. exists_path fs (dest_dir @ [candidate_name filename j]))"
proof -
  let ?s = "stem_of filename" and ?e = "suffix_of filename"
  have up: "unique_path fs dest_dir filename =
      unique_loop fs dest_dir ?s ?e (dest_dir @ [filename]) 1"
    by (simp add: unique_path_def stem_def suffix_def name_of_snoc)
  have cand: "\<And>j. 0 < j \<Longrightarrow> numbered dest_dir ?s ?e j = dest_dir @ [candidate_name filename j]"
  proof -
    fix j :: nat
    assume "0 < j"
    then obtain i where "j = Suc i" by (cases j) auto
    then show "numbered dest_dir ?s ?e j = dest_dir @ [candidate_name filename j]"
      by (simp add: numbered_def)
  qed
  obtain k where k:
    "unique_loop fs dest_dir ?s ?e (dest_dir @ [filename]) 1 =
       (if k = 0 then dest_dir @ [filename] else numbered dest_dir ?s ?e (1 + k - 1))"
    "\<not> exists_path fs (unique_loop fs dest_dir ?s ?e (dest_dir @ [filename]) 1)"
    "0 < k \<longrightarrow> exists_path fs (dest_dir @ [filename])"
    "\<forall>j. 1 \<le> j \<and> j < 1 + k - 1 \<longrightarrow> exists_path fs (numbered dest_dir ?s ?e j)"
    using unique_loop_first [of fs dest_dir ?s ?e "dest_dir @ [filename]" 1] by blast
  have r: "unique_path fs dest_dir filename = dest_dir @ [candidate_name filename k]"
    using up k(1) cand [of k] by (cases "k = 0") simp_all
  moreover have "\<not> exists_path fs (dest_dir @ [candidate_name filename k])"
    using k(2) up r by simp
  moreover have "\<forall>j<k. exists_path fs (dest_dir @ [candidate_name filename j])"
  proof (intro allI impI)
    fix j assume "j < k"
    show "exists_path fs (dest_dir @ [candidate_name filename j])"
    proof (cases "j = 0")
      case True
      with \<open>j < k\<close> k(3) show ?thesis by simp
    next
      case False
      with \<open>j < k\<close> have "1 \<le> j \<and> j < 1 + k - 1" by simp
      with k(4) have "exists_path fs (numbered dest_dir ?s ?e j)" by blast
      with False cand [of j] show ?thesis by simp
    qed
  qed
  ultimately show ?thesis by blast
qed

lemma unique_path_least:
  "unique_path fs dest_dir filename =
   dest_dir @ [candidate_name filename
     (LEAST k. \<not> exists_path fs (dest_dir @ [candidate_name filename k]))]"
proof -
  obtain k where k: "unique_path fs dest_dir filename = dest_dir @ [candidate_name filename k]"
    "\<not> exists_path fs (dest_dir @ [candidate_name filename k])"
    "\<forall>j<k. exists_path fs (dest_dir @ [candidate_name filename j])"
    using unique_path_first by blast
  have "(LEAST k. \<not> exists_path fs (dest_dir @ [candidate_name filename k])) = k"
    using k(2,3) by (intro Least_equality) (auto simp: not_less [symmetric])
  with k(1) show ?thesis by simp
qed

text \<open>
  C6. For every disk (finitely many entries), directory and file name, \<open>unique_path\<close>
  terminates (\<open>unique_loop\<close> is total, by the termination proof above) and returns the first
  path of the sequence \<open>dir/filename\<close>, \<open>dir/stem_1.ext\<close>, \<open>dir/stem_2.ext\<close>, ... that does
  not exist: the path it returns is candidate \<open>k\<close>, it does not exist, every candidate
  before it exists, and so \<open>k\<close> is the least index of a candidate that does not exist.
\<close>

theorem unique_path_first_free:
  "\<exists>k. unique_path fs dest_dir filename = dest_dir @ [candidate_name filename k] \<and>
       \<not> exists_path fs (dest_dir @ [candidate_name filename k]) \<and>
       (\<forall>j<k. exists_path fs (dest_dir @ [candidate_name filename j])) \<and>
       k = (LEAST k. \<not> exists_path fs (dest_dir @ [candidate_name filename k]))"
proof -
  obtain k where k: "unique_path fs dest_dir filename = dest_dir @ [candidate_name filename k]"
    "\<not> exists_path fs (dest_dir @ [candidate_name filename k])"
    "\<forall>j<k. exists_path fs (dest_dir @ [candidate_name filename j])"
    using unique_path_first by blast
  have "(LEAST k. \<not> exists_path fs (dest_dir @ [candidate_name filename k])) = k"
  proof (rule Least_equality)
    show "\<not> exists_path fs (dest_dir @ [candidate_name filename k])"
      by (rule k(2))
    fix j
    assume "\<not> exists_path fs (dest_dir @ [candidate_name filename j])"
    with k(3) show "k \<le> j"
      by (meson not_less)
  qed
  with k show ?thesis by blast
qed

lemma a_stem: "stem_of (ascii ''a.jpg'') = ascii ''a''"
  by (simp add: path_parts ascii_def)

lemma a_suffix: "suffix_of (ascii ''a.jpg'') = ascii ''.jpg''"
  by (simp add: path_parts ascii_def)

lemma two_taken_result:
  "unique_path two_taken [ascii ''dst''] (ascii ''a.jpg'') = [ascii ''dst'', ascii ''a_2.jpg'']"
proof -
  let ?d = "[ascii ''dst'']" and ?s = "ascii ''a''" and ?e = "ascii ''.jpg''"
  have c1: "numbered ?d ?s ?e 1 = [ascii ''dst'', ascii ''a_1.jpg'']"
    by (simp add: numbered_def str_nat.simps ascii_def underscore_def)
  have c2: "numbered ?d ?s ?e 2 = [ascii ''dst'', ascii ''a_2.jpg'']"
    by (simp add: numbered_def str_nat.simps ascii_def underscore_def)
  have e0: "exists_path two_taken [ascii ''dst'', ascii ''a.jpg'']"
    by (simp add: exists_path_def two_taken_def)
  have e1: "exists_path two_taken [ascii ''dst'', ascii ''a_1.jpg'']"
    by (simp add: exists_path_def two_taken_def)
  have e2: "\<not> exists_path two_taken [ascii ''dst'', ascii ''a_2.jpg'']"
    by (simp add: exists_path_def two_taken_def ascii_def)
  have "unique_loop two_taken ?d ?s ?e [ascii ''dst'', ascii ''a_2.jpg''] 3 =
        [ascii ''dst'', ascii ''a_2.jpg'']"
    using e2 by (subst unique_loop.simps) simp
  then have "unique_loop two_taken ?d ?s ?e [ascii ''dst'', ascii ''a_1.jpg''] 2 =
        [ascii ''dst'', ascii ''a_2.jpg'']"
    using e1 c2 by (subst unique_loop.simps) (simp add: numeral_2_eq_2 numeral_3_eq_3)
  then have "unique_loop two_taken ?d ?s ?e [ascii ''dst'', ascii ''a.jpg''] 1 =
        [ascii ''dst'', ascii ''a_2.jpg'']"
    using e0 c1 by (subst unique_loop.simps) (simp add: numeral_2_eq_2)
  then show ?thesis
    by (simp add: unique_path_def stem_def suffix_def name_of_def a_stem a_suffix)
qed

theorem unique_path_first_free_witness:
  "unique_path two_taken [ascii ''dst''] (ascii ''a.jpg'') = [ascii ''dst'', ascii ''a_2.jpg''] \<and>
   (\<exists>k. unique_path two_taken [ascii ''dst''] (ascii ''a.jpg'') =
           [ascii ''dst''] @ [candidate_name (ascii ''a.jpg'') k] \<and>
         \<not> exists_path two_taken ([ascii ''dst''] @ [candidate_name (ascii ''a.jpg'') k]) \<and>
         (\<forall>j<k. exists_path two_taken ([ascii ''dst''] @ [candidate_name (ascii ''a.jpg'') j])))"
  using unique_path_first_free [of two_taken "[ascii ''dst'']" "ascii ''a.jpg''"] two_taken_result
  by blast

section \<open>The loop body, case by case\<close>

lemma concat_chunks: "0 < n \<Longrightarrow> concat (chunks n b) = b"
proof (induction n b rule: chunks.induct)
  case (1 n b)
  then show ?case
    by (subst chunks.simps) auto
qed

lemma compute_sha256_readable: "content f = Some b \<Longrightarrow> compute_sha256 H f = Inr (H b)"
  by (simp add: compute_sha256_def concat_chunks CHUNK_SIZE_def)

lemma compute_sha256_unreadable:
  "content f = None \<Longrightarrow> compute_sha256 H f = Inl (ReadError (src_path f))"
  by (simp add: compute_sha256_def)

lemma unique_path_fresh: "\<not> exists_path fs (unique_path fs d n)"
  using unique_path_first [of fs d n] by auto

lemma process_file_unreadable:
  "content f = None \<Longrightarrow>
   process_file H dest f st =
     (Some (ReadError (src_path f)), info (Processing (src_path f) (categorize (src_path f))) st)"
  by (simp add: process_file_def compute_sha256_unreadable)

lemma process_file_duplicate:
  "content f = Some b \<Longrightarrow> H b \<in> seen_hashes st (categorize (src_path f)) \<Longrightarrow>
   process_file H dest f st =
     (None, info (SkipDuplicate (src_path f))
              (info (Processing (src_path f) (categorize (src_path f))) st))"
  by (simp add: process_file_def compute_sha256_readable info_def)

lemma process_file_raises:
  "content f = Some b \<Longrightarrow> H b \<notin> seen_hashes st (categorize (src_path f)) \<Longrightarrow>
   allocation_raises f \<Longrightarrow>
   process_file H dest f st =
     (Some (allocation_error f),
      st\<lparr>seen_hashes := (seen_hashes st)(categorize (src_path f) :=
                   insert (H b) (seen_hashes st (categorize (src_path f)))),
         log := log st @ [Processing (src_path f) (categorize (src_path f))]\<rparr>)"
  by (auto simp: process_file_def compute_sha256_readable info_def allocation_raises_def
      allocation_error_def build_name_def allocate_def Let_def)

lemma process_file_copied:
  "content f = Some b \<Longrightarrow> H b \<notin> seen_hashes st (categorize (src_path f)) \<Longrightarrow>
   \<not> allocation_raises f \<Longrightarrow> copy f = CopyOk \<Longrightarrow>
   process_file H dest f st =
     (None, st\<lparr>seen_hashes := (seen_hashes st)(categorize (src_path f) :=
                   insert (H b) (seen_hashes st (categorize (src_path f)))),
               disk := fmupd (unique_path (disk st) (dest @ [CATEGORY_DIR (categorize (src_path f))])
                                (new_name (categorize (src_path f)) f)) b (disk st),
               log := log st @ [Processing (src_path f) (categorize (src_path f)),
                                Copied (src_path f)
                                  (unique_path (disk st) (dest @ [CATEGORY_DIR (categorize (src_path f))])
                                     (new_name (categorize (src_path f)) f))]\<rparr>)"
  by (auto simp: process_file_def compute_sha256_readable info_def unique_path_fresh copy2_def
      allocation_raises_def build_name_def allocate_def Let_def)

lemma process_file_copy_failed:
  "content f = Some b \<Longrightarrow> H b \<notin> seen_hashes st (categorize (src_path f)) \<Longrightarrow>
   \<not> allocation_raises f \<Longrightarrow> copy f = CopyFails r \<Longrightarrow>
   process_file H dest f st =
     (None, st\<lparr>seen_hashes := (seen_hashes st)(categorize (src_path f) :=
                   insert (H b) (seen_hashes st (categorize (src_path f)))),
               disk := (case r of None \<Rightarrow> disk st
                        | Some x \<Rightarrow> fmupd (unique_path (disk st)
                                    (dest @ [CATEGORY_DIR (categorize (src_path f))])
                                    (new_name (categorize (src_path f)) f)) x (disk st)),
               log := log st @ [Processing (src_path f) (categorize (src_path f)),
                                CopyFailed (src_path f)]\<rparr>)"
  by (auto simp: process_file_def compute_sha256_readable info_def unique_path_fresh copy2_def
      allocation_raises_def build_name_def allocate_def Let_def split: option.split)

section \<open>Runs\<close>

lemma organise_files_append:
  "organise_files H d (xs @ ys) st =
     (case organise_files H d xs st of
        (Some e, st1) \<Rightarrow> (Some e, st1)
      | (None, st1) \<Rightarrow> organise_files H d ys st1)"
  by (induction xs arbitrary: st) (auto split: prod.splits option.splits)

lemma process_file_cases [case_names unreadable duplicate raises copied copy_failed]:
  fixes P :: bool
  assumes "content f = None \<Longrightarrow> P"
    and "\<And>b. content f = Some b \<Longrightarrow> H b \<in> seen_hashes st (categorize (src_path f)) \<Longrightarrow> P"
    and "\<And>b. content f = Some b \<Longrightarrow> H b \<notin> seen_hashes st (categorize (src_path f)) \<Longrightarrow>
           allocation_raises f \<Longrightarrow> P"
    and "\<And>b. content f = Some b \<Longrightarrow> H b \<notin> seen_hashes st (categorize (src_path f)) \<Longrightarrow>
           \<not> allocation_raises f \<Longrightarrow> copy f = CopyOk \<Longrightarrow> P"
    and "\<And>b r. content f = Some b \<Longrightarrow> H b \<notin> seen_hashes st (categorize (src_path f)) \<Longrightarrow>
           \<not> allocation_raises f \<Longrightarrow> copy f = CopyFails r \<Longrightarrow> P"
  shows P
proof (cases "content f")
  case None
  then show ?thesis by (rule assms(1))
next
  case (Some b)
  show ?thesis
  proof (cases "H b \<in> seen_hashes st (categorize (src_path f))")
    case True
    with Some show ?thesis by (rule assms(2))
  next
    case False
    show ?thesis
    proof (cases "allocation_raises f")
      case True
      with Some False show ?thesis by (rule assms(3))
    next
      case ok: False
      with Some False show ?thesis
        by (cases "copy f") (auto intro: assms(4,5))
    qed
  qed
qed

lemmas process_file_results =
  process_file_unreadable process_file_duplicate process_file_raises process_file_copied
  process_file_copy_failed

lemma allocation_raises_trouble_free: "trouble_free f \<Longrightarrow> \<not> allocation_raises f"
  by (simp add: trouble_free_def)

lemma process_file_error: "trouble_free f \<Longrightarrow> fst (process_file H d f st) = None"
  by (cases rule: process_file_cases [where f = f and H = H and st = st])
    (auto simp: process_file_results trouble_free_def)

lemma process_file_seen_mono:
  "h \<in> seen_hashes st c \<Longrightarrow> h \<in> seen_hashes (snd (process_file H d f st)) c"
  by (cases rule: process_file_cases [where f = f and H = H and st = st])
    (auto simp: process_file_results info_def)

lemma process_file_seen_new:
  "h \<in> seen_hashes (snd (process_file H d f st)) c \<Longrightarrow>
   h \<in> seen_hashes st c \<or> (c = categorize (src_path f) \<and> content f \<noteq> None \<and> (\<exists>b. content f = Some b \<and> h = H b))"
  by (cases rule: process_file_cases [where f = f and H = H and st = st])
    (auto simp: process_file_results info_def split: if_splits)

lemma process_file_records:
  "content f = Some b \<Longrightarrow> H b \<in> seen_hashes (snd (process_file H d f st)) (categorize (src_path f))"
  by (cases rule: process_file_cases [where f = f and H = H and st = st])
    (auto simp: process_file_results info_def)

lemma process_file_log_mono:
  "ev \<in> set (log st) \<Longrightarrow> ev \<in> set (log (snd (process_file H d f st)))"
  by (cases rule: process_file_cases [where f = f and H = H and st = st])
    (auto simp: process_file_results info_def)

lemma process_file_copied_iff:
  "Copied s p \<in> set (log (snd (process_file H d f st))) \<longleftrightarrow>
   Copied s p \<in> set (log st) \<or>
   (s = src_path f \<and> \<not> allocation_raises f \<and> copy f = CopyOk \<and>
    p = unique_path (disk st) (d @ [CATEGORY_DIR (categorize (src_path f))])
          (new_name (categorize (src_path f)) f) \<and>
    (\<exists>b. content f = Some b \<and> H b \<notin> seen_hashes st (categorize (src_path f))))"
  by (cases rule: process_file_cases [where f = f and H = H and st = st])
    (auto simp: process_file_results info_def)

lemma organise_files_seen_mono:
  "h \<in> seen_hashes st c \<Longrightarrow> h \<in> seen_hashes (snd (organise_files H d files st)) c"
proof (induction files arbitrary: st)
  case Nil
  then show ?case by simp
next
  case (Cons f files)
  from Cons.prems have "h \<in> seen_hashes (snd (process_file H d f st)) c"
    by (rule process_file_seen_mono)
  with Cons.IH [of "snd (process_file H d f st)"] show ?case
    by (cases "process_file H d f st") (auto split: option.splits)
qed

lemma organise_files_log_mono:
  "ev \<in> set (log st) \<Longrightarrow> ev \<in> set (log (snd (organise_files H d files st)))"
proof (induction files arbitrary: st)
  case Nil
  then show ?case by simp
next
  case (Cons f files)
  from Cons.prems have "ev \<in> set (log (snd (process_file H d f st)))"
    by (rule process_file_log_mono)
  with Cons.IH [of "snd (process_file H d f st)"] show ?case
    by (cases "process_file H d f st") (auto split: option.splits)
qed

lemma organise_files_error:
  "(\<And>f. f \<in> set files \<Longrightarrow> trouble_free f) \<Longrightarrow> fst (organise_files H d files st) = None"
proof (induction files arbitrary: st)
  case Nil
  then show ?case by simp
next
  case (Cons f files)
  have "fst (process_file H d f st) = None"
    using Cons.prems [of f] by (simp add: process_file_error)
  with Cons show ?case
    by (cases "process_file H d f st") (auto split: option.splits)
qed

text \<open>A path whose files in the rest of the walk all have a fingerprint already seen is not copied any more.\<close>

lemma organise_files_no_copy:
  assumes "\<And>f b. f \<in> set files \<Longrightarrow> src_path f = s \<Longrightarrow> content f = Some b \<Longrightarrow>
             H b \<in> seen_hashes st (categorize s)"
    and "Copied s p \<in> set (log (snd (organise_files H d files st)))"
  shows "Copied s p \<in> set (log st)"
  using assms
proof (induction files arbitrary: st)
  case Nil
  then show ?case by simp
next
  case (Cons f files)
  let ?st = "snd (process_file H d f st)"
  have step: "Copied s p \<in> set (log ?st) \<Longrightarrow> Copied s p \<in> set (log st)"
    using Cons.prems(1) [of f] by (auto simp: process_file_copied_iff)
  show ?case
  proof (cases "fst (process_file H d f st)")
    case (Some e)
    with Cons.prems(2) have "Copied s p \<in> set (log ?st)"
      by (cases "process_file H d f st") auto
    then show ?thesis by (rule step)
  next
    case None
    then have run: "organise_files H d (f # files) st = organise_files H d files ?st"
      by (cases "process_file H d f st") auto
    have "Copied s p \<in> set (log ?st)"
    proof (rule Cons.IH)
      fix g b
      assume "g \<in> set files" "src_path g = s" "content g = Some b"
      then have "H b \<in> seen_hashes st (categorize s)"
        using Cons.prems(1) [of g b] by simp
      then show "H b \<in> seen_hashes ?st (categorize s)"
        by (rule process_file_seen_mono)
    next
      show "Copied s p \<in> set (log (snd (organise_files H d files ?st)))"
        using Cons.prems(2) run by simp
    qed
    then show ?thesis by (rule step)
  qed
qed

text \<open>What a run adds to the log about copies concerns the files of the walk.\<close>

lemma organise_files_copied_source:
  assumes "Copied s p \<in> set (log (snd (organise_files H d files st)))"
  shows "Copied s p \<in> set (log st) \<or> (\<exists>f\<in>set files. src_path f = s)"
  using assms
proof (induction files arbitrary: st)
  case Nil
  then show ?case by simp
next
  case (Cons f files)
  let ?st = "snd (process_file H d f st)"
  have "Copied s p \<in> set (log ?st) \<or> (\<exists>g\<in>set files. src_path g = s)"
  proof (cases "fst (process_file H d f st)")
    case (Some e)
    with Cons.prems show ?thesis
      by (cases "process_file H d f st") auto
  next
    case None
    then have "organise_files H d (f # files) st = organise_files H d files ?st"
      by (cases "process_file H d f st") auto
    with Cons.prems Cons.IH [of ?st] show ?thesis by simp
  qed
  then show ?case
    by (auto simp: process_file_copied_iff)
qed

text \<open>The fingerprints a run adds to a category come from files of that category.\<close>

lemma organise_files_seen_source:
  assumes "h \<in> seen_hashes (snd (organise_files H d files st)) c"
  shows "h \<in> seen_hashes st c \<or>
         (\<exists>f\<in>set files. categorize (src_path f) = c \<and> (\<exists>b. content f = Some b \<and> h = H b))"
  using assms
proof (induction files arbitrary: st)
  case Nil
  then show ?case by simp
next
  case (Cons f files)
  let ?st = "snd (process_file H d f st)"
  have "h \<in> seen_hashes ?st c \<or>
        (\<exists>g\<in>set files. categorize (src_path g) = c \<and> (\<exists>b. content g = Some b \<and> h = H b))"
  proof (cases "fst (process_file H d f st)")
    case (Some e)
    with Cons.prems show ?thesis
      by (cases "process_file H d f st") auto
  next
    case None
    then have "organise_files H d (f # files) st = organise_files H d files ?st"
      by (cases "process_file H d f st") auto
    with Cons.prems Cons.IH [of ?st] show ?thesis by simp
  qed
  then show ?case
    using process_file_seen_new [of h H d f st c] by auto
qed

section \<open>Duplicates, failed copies and unreadable files\<close>

lemma organise_initial:
  "organise H source dest fs =
     (case organise_files H dest source (initial_state fs) of
        (Some e, st) \<Rightarrow> (Some e, st)
      | (None, st) \<Rightarrow> (None, info Finished st))"
  by (simp add: organise_def initial_state_def)

lemma txt_other: "categorize [ascii ''src'', ascii (c # ''.txt'')] = Other"
  by (simp add: categorize_def path_parts ascii_def lower_def lower_cp_def PHOTO_EXT_def
      VIDEO_EXT_def MUSIC_EXT_def PROGRAM_EXT_def)

lemma plain_path: "src_path ((plain_file n b)\<lparr>content := x, copy := y\<rparr>) = [ascii ''src'', ascii n]"
  by (simp add: src_path_def plain_file_def)

lemma plain_file_no_raise:
  "\<not> allocation_raises (plain_file n b)"
  "\<not> allocation_raises ((plain_file n b)\<lparr>copy := y\<rparr>)"
  by (simp_all add: allocation_raises_def plain_file_def)

lemma plain_file_trouble_free: "trouble_free (plain_file n b)"
  by (simp add: trouble_free_def allocation_raises_def plain_file_def)

lemma plain_path': "src_path (plain_file n b) = [ascii ''src'', ascii n]"
  "src_path ((plain_file n b)\<lparr>content := x\<rparr>) = [ascii ''src'', ascii n]"
  "src_path ((plain_file n b)\<lparr>copy := y\<rparr>) = [ascii ''src'', ascii n]"
  by (simp_all add: src_path_def plain_file_def)

text \<open>
  C2 says that a file which cannot be read while it is hashed is logged and skipped, and
  that the run goes on with the next file. \<open>organise\<close> calls \<open>compute_sha256\<close> outside
  any \<open>try\<close>, so the \<open>OSError\<close> leaves the loop and the run: on a walk whose first file
  is unreadable the run ends with that error, nothing is copied, and the second file, which
  is readable, is never looked at. (Copy errors and EXIF errors are caught, each in its own
  \<open>try\<close>.)
\<close>

theorem read_error_aborts_run:
  "organise sha256 unreadable_walk [ascii ''dst''] fmempty =
     (Some (ReadError [ascii ''src'', ascii ''a.txt'']),
      \<lparr>seen_hashes = (\<lambda>category. {}), disk = fmempty,
       log = [Processing [ascii ''src'', ascii ''a.txt''] Other]\<rparr>)"
proof -
  have "content ((plain_file ''a.txt'' [104, 105])\<lparr>content := None\<rparr>) = None"
    by simp
  then show ?thesis
    by (simp add: organise_initial unreadable_walk_def process_file_unreadable plain_path'
        txt_other info_def initial_state_def)
qed


lemma failed_copy_first:
  "process_file toy_digest [ascii ''dst''] ((plain_file ''a.txt'' [104, 105])\<lparr>copy := CopyFails None\<rparr>)
     (initial_state fmempty) =
   (None, \<lparr>seen_hashes = (\<lambda>category. {})(Other := {[104, 105]}), disk = fmempty,
           log = [Processing [ascii ''src'', ascii ''a.txt''] Other,
                  CopyFailed [ascii ''src'', ascii ''a.txt'']]\<rparr>)"
proof -
  let ?f = "(plain_file ''a.txt'' [104, 105])\<lparr>copy := CopyFails None\<rparr>"
  have "content ?f = Some [104, 105]" and "copy ?f = CopyFails None"
    by (simp_all add: plain_file_def)
  moreover have "toy_digest [104, 105] \<notin> seen_hashes (initial_state fmempty) (categorize (src_path ?f))"
    by (simp add: initial_state_def)
  moreover have "\<not> allocation_raises ?f"
    by (rule plain_file_no_raise)
  ultimately show ?thesis
    by (simp add: process_file_copy_failed [where b = "[104, 105]" and r = None] plain_path'
        txt_other initial_state_def toy_digest_def)
qed

lemma failed_copy_second:
  "process_file toy_digest [ascii ''dst''] (plain_file ''b.txt'' [104, 105])
     \<lparr>seen_hashes = (\<lambda>category. {})(Other := {[104, 105]}), disk = fmempty,
      log = [Processing [ascii ''src'', ascii ''a.txt''] Other,
             CopyFailed [ascii ''src'', ascii ''a.txt'']]\<rparr> =
   (None, \<lparr>seen_hashes = (\<lambda>category. {})(Other := {[104, 105]}), disk = fmempty,
           log = [Processing [ascii ''src'', ascii ''a.txt''] Other,
                  CopyFailed [ascii ''src'', ascii ''a.txt''],
                  Processing [ascii ''src'', ascii ''b.txt''] Other,
                  SkipDuplicate [ascii ''src'', ascii ''b.txt'']]\<rparr>)"
proof -
  have "content (plain_file ''b.txt'' [104, 105]) = Some [104, 105]"
    by (simp add: plain_file_def)
  then show ?thesis
    by (simp add: process_file_duplicate [where b = "[104, 105]"] plain_path' txt_other
        toy_digest_def info_def)
qed

text \<open>
  C1 says that a file whose copy fails does not get its fingerprint into the set of its
  category, so that a later file with the same content in the same category is not skipped.
  In the program the fingerprint is added right after the duplicate test, before the name is
  built and the copy is tried. On the walk \<open>failed_copy_walk\<close> the copy of \<open>a.txt\<close> fails,
  its fingerprint is in the set of \<open>Other\<close> all the same, \<open>b.txt\<close> with the same content is
  skipped as a duplicate, and nothing reaches the disk.
\<close>

theorem failed_copy_marks_fingerprint:
  "fst (organise toy_digest failed_copy_walk [ascii ''dst''] fmempty) = None \<and>
   log (snd (organise toy_digest failed_copy_walk [ascii ''dst''] fmempty)) =
     [Processing [ascii ''src'', ascii ''a.txt''] Other,
      CopyFailed [ascii ''src'', ascii ''a.txt''],
      Processing [ascii ''src'', ascii ''b.txt''] Other,
      SkipDuplicate [ascii ''src'', ascii ''b.txt''],
      Finished] \<and>
   toy_digest [104, 105] \<in> seen_hashes (snd (organise toy_digest failed_copy_walk [ascii ''dst''] fmempty)) Other \<and>
   disk (snd (organise toy_digest failed_copy_walk [ascii ''dst''] fmempty)) = fmempty"
  by (simp add: organise_initial failed_copy_walk_def failed_copy_first failed_copy_second
      info_def toy_digest_def)

lemma organise_files_records:
  assumes "content f = Some b" and "fst (organise_files H d (f # mid) st) = None"
  shows "H b \<in> seen_hashes (snd (organise_files H d (f # mid) st)) (categorize (src_path f))"
proof -
  have "fst (process_file H d f st) = None"
    using assms(2) by (cases "process_file H d f st") (auto split: option.splits)
  then have "organise_files H d (f # mid) st = organise_files H d mid (snd (process_file H d f st))"
    by (cases "process_file H d f st") auto
  moreover have "H b \<in> seen_hashes (snd (process_file H d f st)) (categorize (src_path f))"
    using assms(1) by (rule process_file_records)
  ultimately show ?thesis
    by (simp add: organise_files_seen_mono)
qed

text \<open>
  C1, amended. A readable file \<open>f\<close> that the loop has worked through has its fingerprint
  in the set of its category, whatever its copy did (nothing is assumed on \<open>copy f\<close>); a
  later file \<open>g\<close> of the same category with the same content, met in the same run after
  any files \<open>mid\<close>, is skipped as a duplicate: the body logs it and changes nothing else.
\<close>

theorem fingerprint_recorded_before_copy:
  assumes "content f = Some b" and "content g = Some b"
    and "categorize (src_path g) = categorize (src_path f)"
    and "organise_files sha256 dest (f # mid) st = (None, st')"
  shows "sha256 b \<in> seen_hashes st' (categorize (src_path f)) \<and>
         process_file sha256 dest g st' =
           (None, info (SkipDuplicate (src_path g))
                    (info (Processing (src_path g) (categorize (src_path g))) st'))"
proof -
  have "sha256 b \<in> seen_hashes st' (categorize (src_path f))"
    using organise_files_records [of f b sha256 dest mid st] assms(1,4) by simp
  then show ?thesis
    using assms(2,3) by (simp add: process_file_duplicate)
qed


theorem fingerprint_recorded_before_copy_witness:
  "toy_digest [104, 105] \<in>
     seen_hashes \<lparr>seen_hashes = (\<lambda>category. {})(Other := {[104, 105]}), disk = fmempty,
       log = [Processing [ascii ''src'', ascii ''a.txt''] Other,
              CopyFailed [ascii ''src'', ascii ''a.txt'']]\<rparr> Other \<and>
   process_file toy_digest [ascii ''dst''] (plain_file ''b.txt'' [104, 105])
     \<lparr>seen_hashes = (\<lambda>category. {})(Other := {[104, 105]}), disk = fmempty,
      log = [Processing [ascii ''src'', ascii ''a.txt''] Other,
             CopyFailed [ascii ''src'', ascii ''a.txt'']]\<rparr> =
   (None, \<lparr>seen_hashes = (\<lambda>category. {})(Other := {[104, 105]}), disk = fmempty,
           log = [Processing [ascii ''src'', ascii ''a.txt''] Other,
                  CopyFailed [ascii ''src'', ascii ''a.txt''],
                  Processing [ascii ''src'', ascii ''b.txt''] Other,
                  SkipDuplicate [ascii ''src'', ascii ''b.txt'']]\<rparr>)"
proof -
  let ?f = "(plain_file ''a.txt'' [104, 105])\<lparr>copy := CopyFails None\<rparr>"
  let ?g = "plain_file ''b.txt'' [104, 105]"
  let ?st = "\<lparr>seen_hashes = (\<lambda>category. {})(Other := {[104, 105]}), disk = fmempty,
       log = [Processing [ascii ''src'', ascii ''a.txt''] Other,
              CopyFailed [ascii ''src'', ascii ''a.txt'']]\<rparr>"
  have 1: "content ?f = Some [104, 105]" and 2: "content ?g = Some [104, 105]"
    by (simp_all add: plain_file_def)
  have 3: "categorize (src_path ?g) = categorize (src_path ?f)"
    by (simp add: plain_path' txt_other)
  have 4: "organise_files toy_digest [ascii ''dst''] (?f # []) (initial_state fmempty) = (None, ?st)"
    by (simp add: failed_copy_first)
  show ?thesis
    using fingerprint_recorded_before_copy [OF 1 2 3 4]
    by (simp add: plain_path' txt_other info_def)
qed

lemma organise_copied:
  "copied (snd (organise H files dest fs)) f \<longleftrightarrow>
   copied (snd (organise_files H dest files (initial_state fs))) f"
  by (cases "organise_files H dest files (initial_state fs)")
    (auto simp: organise_initial copied_def info_def split: option.splits)

lemma later_duplicate_not_copied:
  assumes dist: "distinct (map src_path (pre @ f # post))"
    and g: "g \<in> set post"
    and cat: "categorize (src_path f) = categorize (src_path g)"
    and same: "content f = content g"
    and start: "\<And>p. Copied (src_path g) p \<notin> set (log st)"
  shows "Copied (src_path g) p \<notin> set (log (snd (organise_files H d (pre @ f # post) st)))"
proof
  assume c: "Copied (src_path g) p \<in> set (log (snd (organise_files H d (pre @ f # post) st)))"
  let ?r = "organise_files H d (pre @ [f]) st"
  have split: "organise_files H d (pre @ f # post) st =
      (case ?r of (Some e, st1) \<Rightarrow> (Some e, st1) | (None, st1) \<Rightarrow> organise_files H d post st1)"
    using organise_files_append [of H d "pre @ [f]" post st] by simp
  have other: "\<And>h. h \<in> set (pre @ [f]) \<Longrightarrow> src_path h \<noteq> src_path g"
    using dist g by auto
  have early: "Copied (src_path g) p \<notin> set (log (snd ?r))"
    using organise_files_copied_source [of "src_path g" p H d "pre @ [f]" st] start other
    by blast
  show False
  proof (cases "fst ?r")
    case (Some e)
    then have "organise_files H d (pre @ f # post) st = ?r"
      using split by (cases ?r) auto
    with c early show False by simp
  next
    case None
    then have run: "organise_files H d (pre @ f # post) st = organise_files H d post (snd ?r)"
      using split by (cases ?r) auto
    have seen: "\<And>b. content f = Some b \<Longrightarrow> H b \<in> seen_hashes (snd ?r) (categorize (src_path f))"
    proof -
      fix b
      assume b: "content f = Some b"
      have "?r = (case organise_files H d pre st of
                    (Some e, st1) \<Rightarrow> (Some e, st1)
                  | (None, st1) \<Rightarrow> organise_files H d [f] st1)"
        by (rule organise_files_append)
      with None obtain st1 where "?r = organise_files H d [f] st1"
        by (cases "organise_files H d pre st") (auto split: option.splits)
      moreover have "H b \<in> seen_hashes (snd (organise_files H d [f] st1)) (categorize (src_path f))"
        using b by (cases "process_file H d f st1")
          (auto split: option.splits dest: process_file_records [where H = H and d = d and st = st1])
      ultimately show "H b \<in> seen_hashes (snd ?r) (categorize (src_path f))"
        by simp
    qed
    have "Copied (src_path g) p \<in> set (log (snd ?r))"
    proof (rule organise_files_no_copy [where files = post and H = H and d = d])
      fix h b
      assume h: "h \<in> set post" "src_path h = src_path g" "content h = Some b"
      have "distinct (map src_path post)"
        using dist by simp
      with h(1,2) g have "h = g"
        by (meson distinct_map inj_onD)
      with h(3) same cat seen [of b] show "H b \<in> seen_hashes (snd ?r) (categorize (src_path g))"
        by simp
    next
      show "Copied (src_path g) p \<in> set (log (snd (organise_files H d post (snd ?r))))"
        using c run by simp
    qed
    with early show False by simp
  qed
qed

text \<open>
  C3. No-duplicate invariant: if two files of the walk (every path occurs once in it)
  fall into the same category and have the same content, then one run of \<open>organise\<close>,
  from any disk, copies at most one of them; the later one is never copied.
\<close>

theorem no_duplicate_copies:
  assumes "distinct (map src_path files)"
    and "i < j" and "j < length files"
    and "categorize (src_path (files ! i)) = categorize (src_path (files ! j))"
    and "content (files ! i) = content (files ! j)"
  shows "\<not> copied (snd (organise sha256 files dest fs)) (files ! j) \<and>
         \<not> (copied (snd (organise sha256 files dest fs)) (files ! i) \<and>
            copied (snd (organise sha256 files dest fs)) (files ! j))"
proof -
  let ?pre = "take i files" and ?post = "drop (Suc i) files"
  have i: "i < length files"
    using assms(2,3) by simp
  then have files: "files = ?pre @ files ! i # ?post"
    by (rule id_take_nth_drop)
  have "files ! j = ?post ! (j - Suc i)"
    using assms(2,3) by simp
  moreover have "j - Suc i < length ?post"
    using assms(2,3) by simp
  ultimately have g: "files ! j \<in> set ?post"
    by (metis nth_mem)
  have "\<And>p. Copied (src_path (files ! j)) p \<notin>
      set (log (snd (organise_files sha256 dest (?pre @ files ! i # ?post) (initial_state fs))))"
  proof (rule later_duplicate_not_copied [OF _ g assms(4,5)])
    show "distinct (map src_path (?pre @ files ! i # ?post))"
      using assms(1) files by simp
    show "\<And>p. Copied (src_path (files ! j)) p \<notin> set (log (initial_state fs))"
      by (simp add: initial_state_def)
  qed
  then have "\<not> copied (snd (organise_files sha256 dest files (initial_state fs))) (files ! j)"
    using files by (simp add: copied_def)
  then have "\<not> copied (snd (organise sha256 files dest fs)) (files ! j)"
    by (simp add: organise_copied)
  then show ?thesis by simp
qed

section \<open>Independence of the categories\<close>

lemma process_file_disk_mono:
  "fmlookup (disk st) p = Some b \<Longrightarrow> fmlookup (disk (snd (process_file H d f st))) p = Some b"
proof (cases rule: process_file_cases [where f = f and H = H and st = st])
  case unreadable
  then show "fmlookup (disk st) p = Some b \<Longrightarrow> ?thesis"
    by (simp add: process_file_unreadable info_def)
next
  case (duplicate c)
  then show "fmlookup (disk st) p = Some b \<Longrightarrow> ?thesis"
    by (simp add: process_file_duplicate info_def)
next
  case (raises c)
  then show "fmlookup (disk st) p = Some b \<Longrightarrow> ?thesis"
    by (simp add: process_file_raises)
next
  case (copied c)
  assume p: "fmlookup (disk st) p = Some b"
  let ?n = "unique_path (disk st) (d @ [CATEGORY_DIR (categorize (src_path f))])
              (new_name (categorize (src_path f)) f)"
  have "?n \<noteq> p"
    using unique_path_fresh [of "disk st"] p by (auto simp: exists_path_def fmlookup_dom'_iff)
  with copied p show ?thesis
    by (simp add: process_file_copied)
next
  case (copy_failed c r)
  assume p: "fmlookup (disk st) p = Some b"
  let ?n = "unique_path (disk st) (d @ [CATEGORY_DIR (categorize (src_path f))])
              (new_name (categorize (src_path f)) f)"
  have "?n \<noteq> p"
    using unique_path_fresh [of "disk st"] p by (auto simp: exists_path_def fmlookup_dom'_iff)
  with copy_failed p show ?thesis
    by (simp add: process_file_copy_failed split: option.split)
qed

lemma organise_files_disk_mono:
  "fmlookup (disk st) p = Some b \<Longrightarrow>
   fmlookup (disk (snd (organise_files H d files st))) p = Some b"
proof (induction files arbitrary: st)
  case Nil
  then show ?case by simp
next
  case (Cons f files)
  from Cons.prems have "fmlookup (disk (snd (process_file H d f st))) p = Some b"
    by (rule process_file_disk_mono)
  with Cons.IH [of "snd (process_file H d f st)"] show ?case
    by (cases "process_file H d f st") (auto split: option.splits)
qed

lemma first_of_kind_copied:
  assumes sound: "\<And>m. m \<le> k \<Longrightarrow> trouble_free (files ! m)"
    and k: "k < length files"
    and b: "content (files ! k) = Some b"
    and ok: "copy (files ! k) = CopyOk"
    and first: "\<And>m. m < k \<Longrightarrow>
        categorize (src_path (files ! m)) = categorize (src_path (files ! k)) \<Longrightarrow>
        map_option H (content (files ! m)) \<noteq> Some (H b)"
    and start: "H b \<notin> seen_hashes st (categorize (src_path (files ! k)))"
  shows "\<exists>p. Copied (src_path (files ! k)) p \<in> set (log (snd (organise_files H d files st))) \<and>
             fmlookup (disk (snd (organise_files H d files st))) p = Some b"
proof -
  let ?pre = "take k files" and ?post = "drop (Suc k) files" and ?f = "files ! k"
  let ?c = "categorize (src_path ?f)"
  have files: "files = ?pre @ ?f # ?post"
    using k by (rule id_take_nth_drop)
  let ?st1 = "snd (organise_files H d ?pre st)"
  have pre_ok: "fst (organise_files H d ?pre st) = None"
  proof (rule organise_files_error)
    fix g
    assume "g \<in> set ?pre"
    then obtain m where "m < k" "g = files ! m"
      using k by (auto simp: in_set_conv_nth)
    with sound [of m] show "trouble_free g" by simp
  qed
  have free: "\<not> allocation_raises ?f"
    using sound [of k] by (simp add: allocation_raises_trouble_free)
  have unseen: "H b \<notin> seen_hashes ?st1 ?c"
  proof
    assume "H b \<in> seen_hashes ?st1 ?c"
    then obtain g b' where g: "g \<in> set ?pre" "categorize (src_path g) = ?c"
        "content g = Some b'" "H b = H b'"
      using organise_files_seen_source [of "H b" H d ?pre st ?c] start by blast
    from g(1) obtain m where m: "m < k" "g = files ! m"
      using k by (auto simp: in_set_conv_nth)
    with first [of m] g(2,3,4) show False by simp
  qed
  let ?p = "unique_path (disk ?st1) (d @ [CATEGORY_DIR ?c]) (new_name ?c ?f)"
  let ?st2 = "snd (process_file H d ?f ?st1)"
  have step: "fst (process_file H d ?f ?st1) = None"
    using sound [of k] by (simp add: process_file_error)
  have "Copied (src_path ?f) ?p \<in> set (log ?st2)"
    using b ok unseen free by (simp add: process_file_copied)
  moreover have "fmlookup (disk ?st2) ?p = Some b"
    using b ok unseen free by (simp add: process_file_copied)
  moreover have "organise_files H d files st = organise_files H d ?post ?st2"
  proof -
    have "organise_files H d (?pre @ ?f # ?post) st = organise_files H d (?f # ?post) ?st1"
      using pre_ok by (cases "organise_files H d ?pre st") (auto simp: organise_files_append)
    also have "\<dots> = organise_files H d ?post ?st2"
      using step by (cases "process_file H d ?f ?st1") auto
    finally show ?thesis using files by simp
  qed
  ultimately show ?thesis
    using organise_files_log_mono [of "Copied (src_path ?f) ?p" ?st2 H d ?post]
      organise_files_disk_mono [of ?st2 ?p b H d ?post]
    by auto
qed

lemma organise_disk:
  "disk (snd (organise H files dest fs)) = disk (snd (organise_files H dest files (initial_state fs)))"
  by (cases "organise_files H dest files (initial_state fs)")
    (auto simp: organise_initial info_def split: option.splits)

lemma organise_log:
  "ev \<in> set (log (snd (organise_files H dest files (initial_state fs)))) \<Longrightarrow>
   ev \<in> set (log (snd (organise H files dest fs)))"
  by (cases "organise_files H dest files (initial_state fs)")
    (auto simp: organise_initial info_def split: option.splits)

lemma mp3_music: "categorize [ascii ''src'', ascii (c # ''.mp3'')] = Music"
  by (simp add: categorize_def path_parts ascii_def lower_def lower_cp_def PHOTO_EXT_def
      VIDEO_EXT_def MUSIC_EXT_def)

text \<open>
  C4 says that every two files with the same content that fall into two different
  categories are both copied in one run. As worded this fails: in the walk
  \<open>three_file_walk\<close> the files \<open>b.txt\<close> and \<open>c.mp3\<close> have the same content and different
  categories, and \<open>b.txt\<close> is not copied, because \<open>a.txt\<close>, of its own category and with
  the same content, came before it.
\<close>

theorem same_category_duplicate_blocks_pair:
  "content (plain_file ''b.txt'' [104, 105]) = content (plain_file ''c.mp3'' [104, 105]) \<and>
   categorize (src_path (plain_file ''b.txt'' [104, 105])) \<noteq>
     categorize (src_path (plain_file ''c.mp3'' [104, 105])) \<and>
   \<not> copied (snd (organise toy_digest three_file_walk [ascii ''dst''] fmempty))
       (plain_file ''b.txt'' [104, 105])"
proof -
  let ?a = "plain_file ''a.txt'' [104, 105]" and ?b = "plain_file ''b.txt'' [104, 105]"
  let ?c = "plain_file ''c.mp3'' [104, 105]"
  have "\<And>p. Copied (src_path ?b) p \<notin>
      set (log (snd (organise_files toy_digest [ascii ''dst''] ([] @ ?a # [?b, ?c])
        (initial_state fmempty))))"
  proof (rule later_duplicate_not_copied)
    show "distinct (map src_path ([] @ ?a # [?b, ?c]))"
      by (simp add: plain_path' ascii_def)
    show "?b \<in> set [?b, ?c]"
      by simp
    show "categorize (src_path ?a) = categorize (src_path ?b)"
      by (simp add: plain_path' txt_other)
    show "content ?a = content ?b"
      by (simp add: plain_file_def)
    show "\<And>p. Copied (src_path ?b) p \<notin> set (log (initial_state fmempty))"
      by (simp add: initial_state_def)
  qed
  then have "\<not> copied (snd (organise_files toy_digest [ascii ''dst''] three_file_walk
      (initial_state fmempty))) ?b"
    by (simp add: copied_def three_file_walk_def)
  then have "\<not> copied (snd (organise toy_digest three_file_walk [ascii ''dst''] fmempty)) ?b"
    by (simp add: organise_copied)
  moreover have "content ?b = content ?c"
    by (simp add: plain_file_def)
  moreover have "categorize (src_path ?b) \<noteq> categorize (src_path ?c)"
    by (simp add: plain_path' txt_other mp3_music)
  ultimately show ?thesis by simp
qed

text \<open>
  C4, amended. Cross-category independence: two files with the same content that fall into
  two different categories are both copied in one run, each to a path that holds its content
  when the run ends, provided that the run gets to both and through both (no file of the
  walk up to them raises outside a handler: each can be read, and neither line 191 nor line
  200 raises for it), that the two copies succeed, and that neither of the two comes after a
  file of its own category with the same fingerprint. A file of another category never
  makes a file a duplicate, whatever its content.
\<close>

theorem cross_category_both_copied:
  assumes "\<forall>m\<le>i. trouble_free (files ! m)" and "\<forall>m\<le>j. trouble_free (files ! m)"
    and "i < length files" and "j < length files"
    and "content (files ! i) = Some b" and "content (files ! j) = Some b"
    and "categorize (src_path (files ! i)) \<noteq> categorize (src_path (files ! j))"
    and "copy (files ! i) = CopyOk" and "copy (files ! j) = CopyOk"
    and "\<forall>m<i. categorize (src_path (files ! m)) = categorize (src_path (files ! i)) \<longrightarrow>
           map_option sha256 (content (files ! m)) \<noteq> Some (sha256 b)"
    and "\<forall>m<j. categorize (src_path (files ! m)) = categorize (src_path (files ! j)) \<longrightarrow>
           map_option sha256 (content (files ! m)) \<noteq> Some (sha256 b)"
  shows "(\<exists>p. Copied (src_path (files ! i)) p \<in> set (log (snd (organise sha256 files dest fs))) \<and>
              fmlookup (disk (snd (organise sha256 files dest fs))) p = Some b) \<and>
         (\<exists>q. Copied (src_path (files ! j)) q \<in> set (log (snd (organise sha256 files dest fs))) \<and>
              fmlookup (disk (snd (organise sha256 files dest fs))) q = Some b)"
proof -
  have start: "\<And>c. sha256 b \<notin> seen_hashes (initial_state fs) c"
    by (simp add: initial_state_def)
  have "\<exists>p. Copied (src_path (files ! i)) p \<in>
            set (log (snd (organise_files sha256 dest files (initial_state fs)))) \<and>
          fmlookup (disk (snd (organise_files sha256 dest files (initial_state fs)))) p = Some b"
    using assms(1,3,5,8,10) start by (intro first_of_kind_copied) auto
  moreover have "\<exists>q. Copied (src_path (files ! j)) q \<in>
            set (log (snd (organise_files sha256 dest files (initial_state fs)))) \<and>
          fmlookup (disk (snd (organise_files sha256 dest files (initial_state fs)))) q = Some b"
    using assms(2,4,6,9,11) start by (intro first_of_kind_copied) auto
  ultimately show ?thesis
    by (auto simp: organise_disk intro: organise_log)
qed

theorem cross_category_both_copied_witness:
  "(\<exists>p. Copied [ascii ''src'', ascii ''a.txt''] p \<in>
          set (log (snd (organise toy_digest two_category_walk [ascii ''dst''] fmempty))) \<and>
        fmlookup (disk (snd (organise toy_digest two_category_walk [ascii ''dst''] fmempty))) p =
          Some [104, 105]) \<and>
   (\<exists>q. Copied [ascii ''src'', ascii ''b.mp3''] q \<in>
          set (log (snd (organise toy_digest two_category_walk [ascii ''dst''] fmempty))) \<and>
        fmlookup (disk (snd (organise toy_digest two_category_walk [ascii ''dst''] fmempty))) q =
          Some [104, 105])"
proof -
  have 1: "\<forall>m\<le>0. trouble_free (two_category_walk ! m)"
    by (simp add: two_category_walk_def plain_file_trouble_free)
  have 0: "\<forall>m\<le>1. trouble_free (two_category_walk ! m)"
    by (auto simp: two_category_walk_def plain_file_trouble_free le_Suc_eq)
  have 2: "0 < length two_category_walk" and 3: "1 < length two_category_walk"
    by (simp_all add: two_category_walk_def)
  have 4: "content (two_category_walk ! 0) = Some [104, 105]"
    and 5: "content (two_category_walk ! 1) = Some [104, 105]"
    and 7: "copy (two_category_walk ! 0) = CopyOk"
    and 8: "copy (two_category_walk ! 1) = CopyOk"
    by (simp_all add: two_category_walk_def plain_file_def)
  have p0: "src_path (two_category_walk ! 0) = [ascii ''src'', ascii ''a.txt'']"
    and p1: "src_path (two_category_walk ! 1) = [ascii ''src'', ascii ''b.mp3'']"
    by (simp_all add: two_category_walk_def plain_path')
  have 6: "categorize (src_path (two_category_walk ! 0)) \<noteq>
           categorize (src_path (two_category_walk ! 1))"
    using p0 p1 by (simp add: txt_other mp3_music)
  have 9: "\<forall>m<0. categorize (src_path (two_category_walk ! m)) =
             categorize (src_path (two_category_walk ! 0)) \<longrightarrow>
           map_option toy_digest (content (two_category_walk ! m)) \<noteq> Some (toy_digest [104, 105])"
    by simp
  have 10: "\<forall>m<1. categorize (src_path (two_category_walk ! m)) =
             categorize (src_path (two_category_walk ! 1)) \<longrightarrow>
           map_option toy_digest (content (two_category_walk ! m)) \<noteq> Some (toy_digest [104, 105])"
    using 6 by simp
  show ?thesis
    using cross_category_both_copied [OF 1 0 2 3 4 5 6 7 8 9 10, of "[ascii ''dst'']" fmempty]
      p0 p1
    by simp
qed

theorem no_duplicate_copies_witness:
  "copied (snd (organise toy_digest duplicate_walk [ascii ''dst''] fmempty))
     (plain_file ''a.txt'' [104, 105]) \<and>
   \<not> copied (snd (organise toy_digest duplicate_walk [ascii ''dst''] fmempty))
     (plain_file ''b.txt'' [104, 105])"
proof -
  have d: "distinct (map src_path duplicate_walk)"
    by (simp add: duplicate_walk_def plain_path' ascii_def)
  have i: "(0::nat) < 1" and j: "1 < length duplicate_walk"
    by (simp_all add: duplicate_walk_def)
  have c: "categorize (src_path (duplicate_walk ! 0)) = categorize (src_path (duplicate_walk ! 1))"
    by (simp add: duplicate_walk_def plain_path' txt_other)
  have b: "content (duplicate_walk ! 0) = content (duplicate_walk ! 1)"
    by (simp add: duplicate_walk_def plain_file_def)
  have first: "\<exists>p. Copied (src_path (duplicate_walk ! 0)) p \<in>
        set (log (snd (organise_files toy_digest [ascii ''dst''] duplicate_walk (initial_state fmempty)))) \<and>
      fmlookup (disk (snd (organise_files toy_digest [ascii ''dst''] duplicate_walk
        (initial_state fmempty)))) p = Some [104, 105]"
    by (rule first_of_kind_copied)
      (auto simp: duplicate_walk_def plain_file_def initial_state_def trouble_free_def
        allocation_raises_def)
  then have "copied (snd (organise_files toy_digest [ascii ''dst''] duplicate_walk
      (initial_state fmempty))) (duplicate_walk ! 0)"
    by (auto simp: copied_def)
  then have "copied (snd (organise toy_digest duplicate_walk [ascii ''dst''] fmempty))
     (duplicate_walk ! 0)"
    by (simp add: organise_copied)
  then show ?thesis
    using no_duplicate_copies [OF d i j c b, of toy_digest "[ascii ''dst'']" fmempty]
    by (simp add: duplicate_walk_def)
qed

section \<open>Determinism\<close>

lemma unique_path_same_names:
  assumes "\<And>n. exists_path fs1 (d1 @ [n]) = exists_path fs2 (d2 @ [n])"
  shows "\<exists>m. unique_path fs1 d1 filename = d1 @ [m] \<and> unique_path fs2 d2 filename = d2 @ [m]"
proof -
  have "(LEAST k. \<not> exists_path fs1 (d1 @ [candidate_name filename k])) =
        (LEAST k. \<not> exists_path fs2 (d2 @ [candidate_name filename k]))"
    using assms by simp
  then show ?thesis
    using unique_path_least [of fs1 d1 filename] unique_path_least [of fs2 d2 filename]
    by simp
qed

lemma same_view_names:
  assumes "same_view dest1 dest2 st1 st2"
  shows "exists_path (disk st1) ((dest1 @ [CATEGORY_DIR c]) @ [n]) =
         exists_path (disk st2) ((dest2 @ [CATEGORY_DIR c]) @ [n])"
  using assms by (simp add: same_view_def exists_path_def fmlookup_dom'_iff)

lemma same_view_info:
  "same_view dest1 dest2 st1 st2 \<Longrightarrow> same_view dest1 dest2 (info e1 st1) (info e2 st2)"
  by (simp add: same_view_def info_def)

lemma process_file_same_view:
  assumes v: "same_view dest1 dest2 st1 st2"
  shows "fst (process_file H dest1 f st1) = fst (process_file H dest2 f st2) \<and>
         same_view dest1 dest2 (snd (process_file H dest1 f st1)) (snd (process_file H dest2 f st2))"
proof (cases rule: process_file_cases [where f = f and H = H and st = st1])
  case unreadable
  then show ?thesis
    using v by (simp add: process_file_unreadable same_view_info)
next
  case (duplicate b)
  moreover from duplicate v have "H b \<in> seen_hashes st2 (categorize (src_path f))"
    by (simp add: same_view_def)
  ultimately show ?thesis
    using v by (simp add: process_file_duplicate same_view_info)
next
  case (raises b)
  moreover from raises v have "H b \<notin> seen_hashes st2 (categorize (src_path f))"
    by (simp add: same_view_def)
  ultimately show ?thesis
    using v by (simp add: process_file_raises same_view_def)
next
  case (copied b)
  let ?c = "categorize (src_path f)"
  from copied v have u2: "H b \<notin> seen_hashes st2 ?c"
    by (simp add: same_view_def)
  obtain m where m: "unique_path (disk st1) (dest1 @ [CATEGORY_DIR ?c]) (new_name ?c f) =
        (dest1 @ [CATEGORY_DIR ?c]) @ [m]"
      "unique_path (disk st2) (dest2 @ [CATEGORY_DIR ?c]) (new_name ?c f) =
        (dest2 @ [CATEGORY_DIR ?c]) @ [m]"
    using unique_path_same_names [of "disk st1" "dest1 @ [CATEGORY_DIR ?c]" "disk st2"
        "dest2 @ [CATEGORY_DIR ?c]" "new_name ?c f"] same_view_names [OF v, of ?c]
    by blast
  show ?thesis
    using copied u2 v m by (simp add: process_file_copied same_view_def)
next
  case (copy_failed b r)
  let ?c = "categorize (src_path f)"
  from copy_failed v have u2: "H b \<notin> seen_hashes st2 ?c"
    by (simp add: same_view_def)
  obtain m where m: "unique_path (disk st1) (dest1 @ [CATEGORY_DIR ?c]) (new_name ?c f) =
        (dest1 @ [CATEGORY_DIR ?c]) @ [m]"
      "unique_path (disk st2) (dest2 @ [CATEGORY_DIR ?c]) (new_name ?c f) =
        (dest2 @ [CATEGORY_DIR ?c]) @ [m]"
    using unique_path_same_names [of "disk st1" "dest1 @ [CATEGORY_DIR ?c]" "disk st2"
        "dest2 @ [CATEGORY_DIR ?c]" "new_name ?c f"] same_view_names [OF v, of ?c]
    by blast
  show ?thesis
    using copy_failed u2 v m
    by (simp add: process_file_copy_failed same_view_def split: option.split)
qed

lemma organise_files_same_view:
  assumes "same_view dest1 dest2 st1 st2"
  shows "fst (organise_files H dest1 files st1) = fst (organise_files H dest2 files st2) \<and>
         same_view dest1 dest2 (snd (organise_files H dest1 files st1))
           (snd (organise_files H dest2 files st2))"
  using assms
proof (induction files arbitrary: st1 st2)
  case Nil
  then show ?case by simp
next
  case (Cons f files)
  let ?r1 = "process_file H dest1 f st1" and ?r2 = "process_file H dest2 f st2"
  have step: "fst ?r1 = fst ?r2" "same_view dest1 dest2 (snd ?r1) (snd ?r2)"
    using process_file_same_view [OF Cons.prems, of H f] by simp_all
  show ?case
  proof (cases "fst ?r1")
    case None
    with step(1) have "organise_files H dest1 (f # files) st1 = organise_files H dest1 files (snd ?r1)"
      and "organise_files H dest2 (f # files) st2 = organise_files H dest2 files (snd ?r2)"
      by (cases ?r1; cases ?r2; simp)+
    with Cons.IH [OF step(2)] show ?thesis by simp
  next
    case (Some e)
    with step(1) have "organise_files H dest1 (f # files) st1 = (Some e, snd ?r1)"
      and "organise_files H dest2 (f # files) st2 = (Some e, snd ?r2)"
      by (cases ?r1; cases ?r2; simp)+
    with step(2) show ?thesis by simp
  qed
qed

lemma organise_error:
  "fst (organise H files dest fs) = fst (organise_files H dest files (initial_state fs))"
  by (cases "organise_files H dest files (initial_state fs)")
    (auto simp: organise_initial split: option.splits)

text \<open>
  C9. Determinism: two runs of \<open>organise\<close> on the same source tree (the same walk, with
  the same contents, dates and copy outcomes) into two fresh destination roots, on disks
  that may differ in everything else, end the same way and leave the same set of
  (category, file name, content) triples under the two roots.
\<close>

theorem organise_deterministic:
  assumes "fresh dest1 fs1" and "fresh dest2 fs2"
  shows "fst (organise sha256 source dest1 fs1) = fst (organise sha256 source dest2 fs2) \<and>
         dest_tuples dest1 (disk (snd (organise sha256 source dest1 fs1))) =
         dest_tuples dest2 (disk (snd (organise sha256 source dest2 fs2)))"
proof -
  have "same_view dest1 dest2 (initial_state fs1) (initial_state fs2)"
    using assms by (simp add: same_view_def initial_state_def fresh_def exists_path_def
        fmlookup_dom'_iff)
  then have "fst (organise_files sha256 dest1 source (initial_state fs1)) =
        fst (organise_files sha256 dest2 source (initial_state fs2)) \<and>
      same_view dest1 dest2 (snd (organise_files sha256 dest1 source (initial_state fs1)))
        (snd (organise_files sha256 dest2 source (initial_state fs2)))"
    by (rule organise_files_same_view)
  then show ?thesis
    by (simp add: organise_error organise_disk dest_tuples_def same_view_def)
qed

theorem organise_deterministic_witness:
  "fst (organise toy_digest duplicate_walk [ascii ''out1''] fmempty) =
   fst (organise toy_digest duplicate_walk [ascii ''out2''] other_disk) \<and>
   dest_tuples [ascii ''out1''] (disk (snd (organise toy_digest duplicate_walk [ascii ''out1''] fmempty))) =
   dest_tuples [ascii ''out2''] (disk (snd (organise toy_digest duplicate_walk [ascii ''out2''] other_disk)))"
proof -
  have 1: "fresh [ascii ''out1''] fmempty"
    by (simp add: fresh_def exists_path_def)
  have 2: "fresh [ascii ''out2''] other_disk"
    by (simp add: fresh_def exists_path_def other_disk_def)
  show ?thesis
    using organise_deterministic [OF 1 2] by simp
qed

end
